theory Spec2Isabelle
  imports Main "HOL-Library.Word" "HOL-Library.Sublist"
begin

section \<open>Strings, diff parts and change units\<close>

text \<open>
  A JavaScript string is a sequence of UTF-16 code units.  Every string operation of the
  sources that is modelled here (\<open>match\<close>, \<open>indexOf\<close>, \<open>substring\<close>, \<open>replace\<close>,
  \<open>String.fromCharCode\<close>, \<open>+\<close>) works on code units; only the string iterator of
  \<open>for (const char of chars)\<close> groups surrogate pairs.
\<close>

type_synonym jschar = "16 word"
type_synonym jsstring = "jschar list"

definition js :: "string \<Rightarrow> jsstring" where
  \<comment> \<open>an ASCII literal of the source as a sequence of code units\<close>
  "js s = map of_char s"

text \<open>
  The operation codes of diff-match-patch: \<open>DIFF_DELETE = -1\<close>, \<open>DIFF_EQUAL = 0\<close>,
  \<open>DIFF_INSERT = 1\<close>.  A diff part is \<open>{type, text}\<close>.
\<close>

datatype DiffOp = DIFF_DELETE | DIFF_EQUAL | DIFF_INSERT

record DiffPart =
  type_d :: DiffOp
  text_d :: jsstring

text \<open>
  A change unit is \<open>{id, type, parts}\<close> with \<open>type\<close> one of the strings \<open>'equal'\<close> and
  \<open>'change'\<close>; \<open>id\<close> is \<open>null\<close> (\<open>None\<close>) or a number.  The resolution functions of
  \<open>renderer.js\<close> later add the properties \<open>resolved\<close>, \<open>accepted\<close> and \<open>rejected\<close>;
  a property that is absent reads as \<open>undefined\<close>, which every test of the sources treats
  as false, so an absent flag is \<open>False\<close>.
\<close>

datatype UnitType = equal | change

record ChangeUnit =
  id_c :: "nat option"
  type_c :: UnitType
  parts :: "DiffPart list"
  resolved :: bool
  accepted :: bool
  rejected :: bool

definition new_unit :: "nat option \<Rightarrow> UnitType \<Rightarrow> DiffPart list \<Rightarrow> ChangeUnit" where
  \<comment> \<open>the object literal \<open>{ id: i, type: t, parts: ps }\<close>\<close>
  "new_unit i t ps =
     \<lparr>id_c = i, type_c = t, parts = ps, resolved = False, accepted = False, rejected = False\<rparr>"

section \<open>The change grouper\<close>

text \<open>
  \<open>groupDiffsIntoChanges\<close> walks \<open>diffs\<close> with an index \<open>i\<close> and a counter \<open>changeId\<close>.
  The model recurses on the parts from index \<open>i\<close> on and carries the counter.
\<close>

fun groupFrom :: "nat \<Rightarrow> DiffPart list \<Rightarrow> ChangeUnit list" where
  "groupFrom changeId [] = []"
| "groupFrom changeId (d # rest) =
     (case type_d d of
        DIFF_EQUAL \<Rightarrow> new_unit None equal [d] # groupFrom changeId rest
      | DIFF_DELETE \<Rightarrow>
          (case rest of
             [] \<Rightarrow> new_unit (Some changeId) change [d] # groupFrom (changeId + 1) rest
           | d2 # rest2 \<Rightarrow>
               if type_d d2 = DIFF_INSERT
               then new_unit (Some changeId) change [d, d2] # groupFrom (changeId + 1) rest2
               else new_unit (Some changeId) change [d] # groupFrom (changeId + 1) rest)
      | DIFF_INSERT \<Rightarrow> new_unit (Some changeId) change [d] # groupFrom (changeId + 1) rest)"

definition groupDiffsIntoChanges :: "DiffPart list \<Rightarrow> ChangeUnit list" where
  "groupDiffsIntoChanges diffs = groupFrom 0 diffs"

definition change_units :: "ChangeUnit list \<Rightarrow> ChangeUnit list" where
  \<comment> \<open>\<open>changes.filter(c => c.type === 'change')\<close>\<close>
  "change_units cs = filter (\<lambda>c. type_c c = change) cs"

definition non_null_ids :: "ChangeUnit list \<Rightarrow> nat list" where
  \<comment> \<open>the ids that are not \<open>null\<close>, in list order\<close>
  "non_null_ids cs = List.map_filter id_c cs"

section \<open>The word diff\<close>

subsection \<open>Tokens\<close>

text \<open>
  \<open>tokenize\<close> is \<open>text.match(/\S+|\s+/g) || []\<close>: the maximal runs of white space and of
  other code units, in order.  \<open>\s\<close> is the white space and the line terminators of
  ECMAScript; the regular expression has no \<open>u\<close> flag, so it reads code units.
\<close>

definition isSpace :: "jschar \<Rightarrow> bool" where
  "isSpace c \<longleftrightarrow>
     c \<in> {0x9, 0xA, 0xB, 0xC, 0xD, 0x20, 0xA0, 0x1680, 0x2028, 0x2029, 0x202F, 0x205F,
          0x3000, 0xFEFF}
     \<or> (0x2000 \<le> c \<and> c \<le> 0x200A)"

definition same_class :: "jschar \<Rightarrow> jschar \<Rightarrow> bool" where
  "same_class c d \<longleftrightarrow> isSpace d = isSpace c"

function tokenize :: "jsstring \<Rightarrow> jsstring list" where
  "tokenize [] = []"
| "tokenize (c # cs) =
     (c # takeWhile (same_class c) cs) # tokenize (dropWhile (same_class c) cs)"
  by pat_completeness auto

termination tokenize
  by (relation "measure length") (auto simp add: length_dropWhile_le less_Suc_eq_le)

subsection \<open>Codes for tokens\<close>

text \<open>
  \<open>wordMap\<close> is a \<open>Map\<close> from token to a one-unit string, kept here in insertion order
  (\<open>forEach\<close> visits it in that order); \<open>charCode\<close> is the counter.
  \<open>String.fromCharCode(n)\<close> is the string of the single code unit \<open>n mod 2^16\<close>.
\<close>

type_synonym word_state = "(jsstring \<times> jsstring) list \<times> nat"

definition fromCharCode :: "nat \<Rightarrow> jsstring" where
  "fromCharCode n = [word_of_nat n]"

definition getWordChar :: "jsstring \<Rightarrow> word_state \<Rightarrow> jsstring \<times> word_state" where
  "getWordChar word st =
     (case st of (wordMap, charCode) \<Rightarrow>
        (case map_of wordMap word of
           Some ch \<Rightarrow> (ch, (wordMap, charCode))
         | None \<Rightarrow>
             (fromCharCode charCode,
              (wordMap @ [(word, fromCharCode charCode)], charCode + 1))))"

fun mapGetWordChar :: "jsstring list \<Rightarrow> word_state \<Rightarrow> jsstring list \<times> word_state" where
  \<comment> \<open>\<open>tokens.map(getWordChar)\<close>, threading the map and the counter\<close>
  "mapGetWordChar [] st = ([], st)"
| "mapGetWordChar (t # ts) st =
     (case getWordChar t st of (ch, st1) \<Rightarrow>
        (case mapGetWordChar ts st1 of (chs, st2) \<Rightarrow> (ch # chs, st2)))"

definition initial_word_state :: word_state where
  \<comment> \<open>\<open>new Map()\<close> and \<open>charCode = 0x100\<close>\<close>
  "initial_word_state = ([], 0x100)"

definition buildReverseMap :: "(jsstring \<times> jsstring) list \<Rightarrow> (jsstring \<rightharpoonup> jsstring)" where
  \<comment> \<open>\<open>wordMap.forEach((char, word) => reverseMap.set(char, word))\<close>: a later entry with
      the same code replaces an earlier one\<close>
  "buildReverseMap wordMap = fold (\<lambda>(word, ch) m. m(ch \<mapsto> word)) wordMap Map.empty"

subsection \<open>The diff of the coded strings, expanded and merged\<close>

text \<open>
  \<open>diff_main\<close> and \<open>diff_cleanupSemantic\<close> belong to the package diff-match-patch, which
  is not part of the repository.  Their composition is a parameter \<open>dmp\<close> of the model:
  from the two coded strings to the list of pairs \<open>[op, chars]\<close>.
\<close>

type_synonym diff_engine = "jsstring \<Rightarrow> jsstring \<Rightarrow> (DiffOp \<times> jsstring) list"

definition isHighSurrogate :: "jschar \<Rightarrow> bool" where
  "isHighSurrogate c \<longleftrightarrow> 0xD800 \<le> c \<and> c \<le> 0xDBFF"

definition isLowSurrogate :: "jschar \<Rightarrow> bool" where
  "isLowSurrogate c \<longleftrightarrow> 0xDC00 \<le> c \<and> c \<le> 0xDFFF"

fun codePoints :: "jsstring \<Rightarrow> jsstring list" where
  \<comment> \<open>the string iterator of \<open>for (const char of chars)\<close>: a high surrogate followed by a
      low surrogate is one element of two code units, every other code unit is one element\<close>
  "codePoints [] = []"
| "codePoints [c] = [[c]]"
| "codePoints (c # d # cs) =
     (if isHighSurrogate c \<and> isLowSurrogate d then [c, d] # codePoints cs
      else [c] # codePoints (d # cs))"

definition expandChunk :: "(jsstring \<rightharpoonup> jsstring) \<Rightarrow> DiffOp \<times> jsstring \<Rightarrow> DiffPart list" where
  \<comment> \<open>the inner loop: one part for every element whose code is in \<open>reverseMap\<close>\<close>
  "expandChunk reverseMap chunk =
     (case chunk of (op, chars) \<Rightarrow>
        concat (map (\<lambda>ch. case reverseMap ch of
                             None \<Rightarrow> []
                           | Some word \<Rightarrow> [\<lparr>type_d = op, text_d = word\<rparr>])
                    (codePoints chars)))"

definition expandDiffs :: "(jsstring \<rightharpoonup> jsstring) \<Rightarrow> (DiffOp \<times> jsstring) list \<Rightarrow> DiffPart list" where
  "expandDiffs reverseMap charDiffs = concat (map (expandChunk reverseMap) charDiffs)"

definition mergeStep :: "DiffPart \<Rightarrow> DiffPart list \<Rightarrow> DiffPart list" where
  \<comment> \<open>one round of the last loop: extend the last merged part or push a copy of the item\<close>
  "mergeStep item merged =
     (if merged \<noteq> [] \<and> type_d (last merged) = type_d item
      then butlast merged @ [(last merged)\<lparr>text_d := text_d (last merged) @ text_d item\<rparr>]
      else merged @ [item])"

definition mergeParts :: "DiffPart list \<Rightarrow> DiffPart list" where
  "mergeParts result = fold mergeStep result []"

definition computeWordDiff :: "diff_engine \<Rightarrow> jsstring \<Rightarrow> jsstring \<Rightarrow> DiffPart list" where
  "computeWordDiff dmp original proposed =
     (let originalTokens = tokenize original;
          proposedTokens = tokenize proposed;
          (originalCodes, st1) = mapGetWordChar originalTokens initial_word_state;
          (proposedCodes, st2) = mapGetWordChar proposedTokens st1;
          originalChars = concat originalCodes;
          proposedChars = concat proposedCodes;
          charDiffs = dmp originalChars proposedChars;
          reverseMap = buildReverseMap (fst st2)
      in mergeParts (expandDiffs reverseMap charDiffs))"

definition wordMap_of :: "jsstring \<Rightarrow> jsstring \<Rightarrow> (jsstring \<times> jsstring) list" where
  \<comment> \<open>the contents of \<open>wordMap\<close> after both token lists have been mapped\<close>
  "wordMap_of original proposed =
     fst (snd (mapGetWordChar (tokenize proposed)
                 (snd (mapGetWordChar (tokenize original) initial_word_state))))"

section \<open>Diff markers\<close>

text \<open>
  The three functions of \<open>lib/diffMarkers.js\<close>.  Each \<open>replace\<close> has a global regular
  expression of the shape \<open>P (\d+) S ([\s\S]*?) C\<close> with literal strings \<open>P\<close>, \<open>S\<close>,
  \<open>C\<close> and a replacement \<open>R1 $1 R2 $2 R3\<close>.

  A match at a position needs \<open>P\<close>, then one or more digits, then \<open>S\<close>.  \<open>\d+\<close> is greedy;
  giving back a digit leaves a digit where \<open>S\<close> must start, and \<open>S\<close> starts with a code unit
  that is not a digit in all four expressions, so only the maximal run of digits can
  match.  The lazy \<open>[\s\S]*?\<close> ends at the first place where \<open>C\<close> follows.
\<close>

record marker_regex =
  re_open :: jsstring
  re_id_end :: jsstring
  re_close :: jsstring
  out_start :: jsstring
  out_middle :: jsstring
  out_end :: jsstring

definition isDigit :: "jschar \<Rightarrow> bool" where
  "isDigit c \<longleftrightarrow> 0x30 \<le> c \<and> c \<le> 0x39"

fun stripPrefix :: "jsstring \<Rightarrow> jsstring \<Rightarrow> jsstring option" where
  \<comment> \<open>the rest of the text after a literal, if the text starts with it\<close>
  "stripPrefix [] s = Some s"
| "stripPrefix (p # ps) [] = None"
| "stripPrefix (p # ps) (c # cs) = (if p = c then stripPrefix ps cs else None)"

fun findFirst :: "jsstring \<Rightarrow> jsstring \<Rightarrow> (jsstring \<times> jsstring) option" where
  \<comment> \<open>the text before and after the first occurrence of a literal\<close>
  "findFirst lit [] = (if lit = [] then Some ([], []) else None)"
| "findFirst lit (c # cs) =
     (case stripPrefix lit (c # cs) of
        Some rest \<Rightarrow> Some ([], rest)
      | None \<Rightarrow>
          (case findFirst lit cs of
             None \<Rightarrow> None
           | Some (before, rest) \<Rightarrow> Some (c # before, rest)))"

definition matchAt :: "marker_regex \<Rightarrow> jsstring \<Rightarrow> (jsstring \<times> jsstring \<times> jsstring) option" where
  \<comment> \<open>a match that starts at the head of the text: the digits, the content, the rest\<close>
  "matchAt re s =
     (case stripPrefix (re_open re) s of
        None \<Rightarrow> None
      | Some s1 \<Rightarrow>
          (if takeWhile isDigit s1 = [] then None
           else
             (case stripPrefix (re_id_end re) (dropWhile isDigit s1) of
                None \<Rightarrow> None
              | Some s2 \<Rightarrow>
                  (case findFirst (re_close re) s2 of
                     None \<Rightarrow> None
                   | Some (content, rest) \<Rightarrow> Some (takeWhile isDigit s1, content, rest)))))"

lemma stripPrefix_length:
  "stripPrefix p s = Some r \<Longrightarrow> length r \<le> length s"
  by (induction p s rule: stripPrefix.induct) (auto split: if_splits)

lemma findFirst_length:
  "findFirst lit s = Some (b, r) \<Longrightarrow> length r \<le> length s"
proof (induction s arbitrary: b r)
  case Nil
  then show ?case by (simp split: if_splits)
next
  case (Cons c cs)
  then show ?case
    by (fastforce split: option.splits prod.splits dest: stripPrefix_length)
qed

lemma matchAt_shorter:
  assumes "matchAt re s = Some (ds, content, rest)"
  shows "length rest < length s"
proof -
  from assms obtain s1 s2 where
    s1: "stripPrefix (re_open re) s = Some s1" and
    ds: "takeWhile isDigit s1 \<noteq> []" and
    s2: "stripPrefix (re_id_end re) (dropWhile isDigit s1) = Some s2" and
    ff: "findFirst (re_close re) s2 = Some (content, rest)"
    by (auto simp add: matchAt_def split: option.splits if_splits)
  have "length (takeWhile isDigit s1) + length (dropWhile isDigit s1) = length s1"
    by (metis length_append takeWhile_dropWhile_id)
  with ds have "length (dropWhile isDigit s1) < length s1"
    by (cases "takeWhile isDigit s1") auto
  with stripPrefix_length [OF s1] stripPrefix_length [OF s2] findFirst_length [OF ff]
  show ?thesis by linarith
qed

function replaceAll :: "marker_regex \<Rightarrow> jsstring \<Rightarrow> jsstring" where
  \<comment> \<open>\<open>text.replace(re, replacement)\<close> for a global \<open>re\<close>: the matches are found from left
      to right, each search starting where the last match ended\<close>
  "replaceAll re [] = []"
| "replaceAll re (c # cs) =
     (case matchAt re (c # cs) of
        Some (ds, content, rest) \<Rightarrow>
          out_start re @ ds @ out_middle re @ content @ out_end re @ replaceAll re rest
      | None \<Rightarrow> c # replaceAll re cs)"
  by pat_completeness auto

termination replaceAll
  by (relation "measure (\<lambda>(re, s). length s)") (auto dest: matchAt_shorter)

definition NUL :: jschar where
  "NUL = 0"

definition del_marker :: marker_regex where
  \<comment> \<open>\<open>/\x00DEL(\d+)\x00([\s\S]*?)\x00\/DEL\x00/g\<close>, \<open>'<diffdelete data-id="$1">$2</diffdelete>'\<close>\<close>
  \<open>del_marker =
     \<lparr>re_open = NUL # js ''DEL'', re_id_end = [NUL], re_close = NUL # js ''/DEL'' @ [NUL],
      out_start = js ''<diffdelete data-id="'', out_middle = js ''">'',
      out_end = js ''</diffdelete>''\<rparr>\<close>

definition ins_marker :: marker_regex where
  \<comment> \<open>\<open>/\x00INS(\d+)\x00([\s\S]*?)\x00\/INS\x00/g\<close>, \<open>'<diffinsert data-id="$1">$2</diffinsert>'\<close>\<close>
  \<open>ins_marker =
     \<lparr>re_open = NUL # js ''INS'', re_id_end = [NUL], re_close = NUL # js ''/INS'' @ [NUL],
      out_start = js ''<diffinsert data-id="'', out_middle = js ''">'',
      out_end = js ''</diffinsert>''\<rparr>\<close>

definition del_placeholder :: marker_regex where
  \<comment> \<open>\<open>/<diffdelete data-id="(\d+)">([\s\S]*?)<\/diffdelete>/g\<close>,
      \<open>'<span class="diff-delete" data-change-id="$1">$2</span>'\<close>\<close>
  \<open>del_placeholder =
     \<lparr>re_open = js ''<diffdelete data-id="'', re_id_end = js ''">'',
      re_close = js ''</diffdelete>'',
      out_start = js ''<span class="diff-delete" data-change-id="'', out_middle = js ''">'',
      out_end = js ''</span>''\<rparr>\<close>

definition ins_placeholder :: marker_regex where
  \<comment> \<open>\<open>/<diffinsert data-id="(\d+)">([\s\S]*?)<\/diffinsert>/g\<close>,
      \<open>'<span class="diff-insert" data-change-id="$1">$2</span>'\<close>\<close>
  \<open>ins_placeholder =
     \<lparr>re_open = js ''<diffinsert data-id="'', re_id_end = js ''">'',
      re_close = js ''</diffinsert>'',
      out_start = js ''<span class="diff-insert" data-change-id="'', out_middle = js ''">'',
      out_end = js ''</span>''\<rparr>\<close>

definition markersToPlaceholders :: "jsstring \<Rightarrow> jsstring" where
  "markersToPlaceholders t = replaceAll ins_marker (replaceAll del_marker t)"

definition placeholdersToSpans :: "jsstring \<Rightarrow> jsstring" where
  "placeholdersToSpans html = replaceAll ins_placeholder (replaceAll del_placeholder html)"

text \<open>
  \<open>buildDiffMarkdown\<close>.  Reading \<open>change.parts[0].text\<close> of a unit with no part throws a
  \<open>TypeError\<close>.  The template literal prints the id with \<open>ToString\<close>: \<open>null\<close> as the word
  \<open>null\<close>, a Number by \<open>Number::toString\<close>.

  An id is \<open>null\<close> or a Number that holds a non-negative integer; the model has the
  integer.  Below \<open>2^53\<close> every integer is a Number and is printed with all its decimal
  digits.  From \<open>2^53\<close> on an integer stands for the Number nearest to it (ties go to the
  even significand, and past the largest Number to \<open>Infinity\<close>), and \<open>Number::toString\<close>
  prints the shortest digit string \<open>s\<close> for which \<open>s * 10^(n - k)\<close> reads back as that
  Number (\<open>k\<close> the number of digits of \<open>s\<close>; the nearest such value, the even \<open>s\<close> in a
  tie): the digits and \<open>n - k\<close> zeros up to \<open>n = 21\<close>, the exponent form \<open>d.ddde+x\<close> with
  \<open>x = n - 1\<close> beyond.
\<close>

datatype js_error = TypeError

function decimal :: "nat \<Rightarrow> jsstring" where
  "decimal n = (if n < 10 then [word_of_nat (48 + n)]
                else decimal (n div 10) @ [word_of_nat (48 + n mod 10)])"
  by pat_completeness auto

termination decimal
  by (relation "measure id") auto

declare decimal.simps [simp del]

function bit_length :: "nat \<Rightarrow> nat" where
  "bit_length n = (if n = 0 then 0 else Suc (bit_length (n div 2)))"
  by pat_completeness auto

termination bit_length
  by (relation "measure id") auto

declare bit_length.simps [simp del]

definition toNumber :: "nat \<Rightarrow> nat" where
  \<comment> \<open>the value of the Number nearest to an integer; \<open>2^1024\<close> or more stands for \<open>Infinity\<close>\<close>
  "toNumber i =
     (if i < 2 ^ 53 then i
      else (let e = bit_length i - 53; q = i div 2 ^ e; r = i mod 2 ^ e; h = 2 ^ (e - 1)
            in if h < r \<or> (r = h \<and> odd q) then (q + 1) * 2 ^ e else q * 2 ^ e))"

definition reads_as :: "nat \<Rightarrow> nat \<Rightarrow> bool" where
  \<comment> \<open>the integer \<open>x\<close> is read as the Number \<open>v\<close>, for \<open>v\<close> from \<open>2^53\<close> on: \<open>x\<close> is at most
      half a gap away from \<open>v\<close>, the ends of the range counting when the significand is even\<close>
  "reads_as v x =
     (let e = bit_length v - 53; q = v div 2 ^ e;
          up = 2 ^ e; dn = (if q = 2 ^ 52 then 2 ^ (e - 1) else 2 ^ e)
      in if even q then 2 * v \<le> 2 * x + dn \<and> 2 * x \<le> 2 * v + up
         else 2 * v < 2 * x + dn \<and> 2 * x < 2 * v + up)"

definition candidates :: "nat \<Rightarrow> nat \<Rightarrow> (nat \<times> nat) list" where
  \<comment> \<open>the pairs \<open>(s, n)\<close> with \<open>s\<close> of \<open>k\<close> digits for which \<open>s * 10^(n - k)\<close> reads as \<open>v\<close>; only
      the two values of \<open>s\<close> next to \<open>v\<close> can be nearest\<close>
  "candidates v k =
     (let N = length (decimal v)
      in filter (\<lambda>(s, n). 10 ^ (k - 1) \<le> s \<and> s < 10 ^ k \<and> reads_as v (s * 10 ^ (n - k)))
           (concat (map (\<lambda>n. [(v div 10 ^ (n - k), n), (v div 10 ^ (n - k) + 1, n)])
                        [N, N + 1])))"

definition distance :: "nat \<Rightarrow> nat \<Rightarrow> nat" where
  "distance a b = (if a \<le> b then b - a else a - b)"

definition nearer :: "nat \<Rightarrow> nat \<Rightarrow> nat \<times> nat \<Rightarrow> nat \<times> nat \<Rightarrow> nat \<times> nat" where
  \<comment> \<open>of two candidates the one nearer to \<open>v\<close>, and in a tie the one with the even \<open>s\<close>\<close>
  "nearer v k d c =
     (let dc = distance v (fst c * 10 ^ (snd c - k)); dd = distance v (fst d * 10 ^ (snd d - k))
      in if dd < dc \<or> (dd = dc \<and> even (fst d) \<and> odd (fst c)) then d else c)"

definition shortest :: "nat \<Rightarrow> nat \<times> nat" where
  \<comment> \<open>the digits \<open>s\<close> and the exponent \<open>n\<close> of \<open>Number::toString\<close>: the least number of digits
      that has a candidate, and the nearest candidate of that length\<close>
  "shortest v =
     (case find (\<lambda>k. candidates v k \<noteq> []) [1 ..< Suc (length (decimal v))] of
        None \<Rightarrow> (v, length (decimal v))
      | Some k \<Rightarrow> fold (nearer v k) (tl (candidates v k)) (hd (candidates v k)))"

definition numberToString :: "nat \<Rightarrow> jsstring" where
  "numberToString i =
     (if i < 2 ^ 53 then decimal i
      else if 2 ^ 1024 \<le> toNumber i then js ''Infinity''
      else (let (s, n) = shortest (toNumber i); ds = decimal s; k = length ds
            in if n \<le> 21 then ds @ replicate (n - k) 0x30
               else hd ds # (if k = 1 then [] else 0x2E # tl ds) @ js ''e+'' @ decimal (n - 1)))"

definition show_id :: "nat option \<Rightarrow> jsstring" where
  \<comment> \<open>\<open>${changeId}\<close>\<close>
  "show_id i = (case i of None \<Rightarrow> js ''null'' | Some n \<Rightarrow> numberToString n)"

definition renderPart :: "nat option \<Rightarrow> DiffPart \<Rightarrow> jsstring" where
  \<comment> \<open>what one part of a change unit appends to \<open>diffMarkdown\<close>\<close>
  "renderPart changeId part =
     (case type_d part of
        DIFF_DELETE \<Rightarrow>
          NUL # js ''DEL'' @ show_id changeId @ [NUL] @ text_d part @ NUL # js ''/DEL'' @ [NUL]
      | DIFF_INSERT \<Rightarrow>
          NUL # js ''INS'' @ show_id changeId @ [NUL] @ text_d part @ NUL # js ''/INS'' @ [NUL]
      | DIFF_EQUAL \<Rightarrow> [])"

fun buildFrom :: "jsstring \<Rightarrow> ChangeUnit list \<Rightarrow> js_error + jsstring" where
  \<comment> \<open>the loop over \<open>changes\<close>, with \<open>diffMarkdown\<close> as the accumulator\<close>
  "buildFrom diffMarkdown [] = Inr diffMarkdown"
| "buildFrom diffMarkdown (c # cs) =
     (if type_c c = equal
      then (case parts c of
              [] \<Rightarrow> Inl TypeError
            | p # ps \<Rightarrow> buildFrom (diffMarkdown @ text_d p) cs)
      else buildFrom (fold (\<lambda>part md. md @ renderPart (id_c c) part) (parts c) diffMarkdown) cs)"

definition buildDiffMarkdown :: "ChangeUnit list \<Rightarrow> js_error + jsstring" where
  "buildDiffMarkdown changes = buildFrom [] changes"

section \<open>Diff state\<close>

text \<open>
  \<open>lib/diffState.js\<close> works on a plain object that the caller owns.  An object is a map
  from property names to values, the store maps references to objects, and
  \<open>clearDiffState\<close> takes and returns a reference.
\<close>

datatype jsval = JBool bool | JStr jsstring | JNum int | JArray "ChangeUnit list"

type_synonym jsobject = "string \<rightharpoonup> jsval"
type_synonym ref = nat
type_synonym store = "ref \<Rightarrow> jsobject"

definition createInitialDiffState :: jsobject where
  \<comment> \<open>the object literal that \<open>createInitialDiffState()\<close> returns\<close>
  "createInitialDiffState =
     [''hasPendingDiff'' \<mapsto> JBool False,
      ''originalContent'' \<mapsto> JStr [],
      ''originalHtml'' \<mapsto> JStr [],
      ''originalFullContent'' \<mapsto> JStr [],
      ''proposedContent'' \<mapsto> JStr [],
      ''proposedHtml'' \<mapsto> JStr [],
      ''isSelectionEdit'' \<mapsto> JBool False,
      ''selectedText'' \<mapsto> JStr [],
      ''selectionStart'' \<mapsto> JNum 0,
      ''selectionEnd'' \<mapsto> JNum 0,
      ''diffChanges'' \<mapsto> JArray []]"

definition assign :: "ref \<Rightarrow> string \<Rightarrow> jsval \<Rightarrow> store \<Rightarrow> store" where
  \<comment> \<open>\<open>state.name = value\<close>\<close>
  "assign r name v h = h(r := (h r)(name \<mapsto> v))"

definition clearDiffState :: "store \<Rightarrow> ref \<Rightarrow> store \<times> ref" where
  "clearDiffState h state =
     ((assign state ''diffChanges'' (JArray [])
       \<circ> assign state ''selectionEnd'' (JNum 0)
       \<circ> assign state ''selectionStart'' (JNum 0)
       \<circ> assign state ''selectedText'' (JStr [])
       \<circ> assign state ''isSelectionEdit'' (JBool False)
       \<circ> assign state ''proposedHtml'' (JStr [])
       \<circ> assign state ''proposedContent'' (JStr [])
       \<circ> assign state ''originalFullContent'' (JStr [])
       \<circ> assign state ''originalHtml'' (JStr [])
       \<circ> assign state ''originalContent'' (JStr [])
       \<circ> assign state ''hasPendingDiff'' (JBool False)) h,
      state)"

section \<open>Resolution in the renderer\<close>

text \<open>
  The part of the global \<open>state\<close> object of \<open>renderer.js\<close> that the resolution functions
  read and write.  The editor and the document tree are outside the model: of
  \<open>document.querySelector('#editor .ProseMirror')\<close> only whether it finds an element is
  kept (the argument \<open>editorEl\<close>), and of \<open>setContentFromMarkdown\<close> only its argument.
\<close>

record app_state =
  isModified :: bool
  hasPendingDiff :: bool
  originalContent :: jsstring
  originalHtml :: jsstring
  originalFullContent :: jsstring
  proposedContent :: jsstring
  proposedHtml :: jsstring
  isSelectionEdit :: bool
  diffChanges :: "ChangeUnit list"

definition clearDiff :: "app_state \<Rightarrow> app_state" where
  "clearDiff st =
     st\<lparr>hasPendingDiff := False, originalContent := [], originalHtml := [],
        originalFullContent := [], proposedContent := [], proposedHtml := [],
        isSelectionEdit := False, diffChanges := []\<rparr>"

definition unresolvedChanges :: "app_state \<Rightarrow> ChangeUnit list" where
  \<comment> \<open>\<open>state.diffChanges.filter(c => c.type === 'change' && !c.resolved)\<close>\<close>
  "unresolvedChanges st = filter (\<lambda>c. type_c c = change \<and> \<not> resolved c) (diffChanges st)"

definition finalizeChanges :: "app_state \<Rightarrow> app_state" where
  \<comment> \<open>\<open>clearDiff(); setModified(true)\<close>\<close>
  "finalizeChanges st = (clearDiff st)\<lparr>isModified := True\<rparr>"

definition checkAllChangesResolved :: "app_state \<Rightarrow> app_state" where
  "checkAllChangesResolved st =
     (if length (unresolvedChanges st) = 0 then finalizeChanges st else st)"

fun updateFirst :: "('a \<Rightarrow> bool) \<Rightarrow> ('a \<Rightarrow> 'a) \<Rightarrow> 'a list \<Rightarrow> 'a list" where
  \<comment> \<open>the array after the object that \<open>find\<close> returned has been changed in place\<close>
  "updateFirst P f [] = []"
| "updateFirst P f (x # xs) = (if P x then f x # xs else x # updateFirst P f xs)"

definition acceptSingleChange :: "nat \<Rightarrow> bool \<Rightarrow> app_state \<Rightarrow> app_state" where
  "acceptSingleChange changeId editorEl st =
     (case List.find (\<lambda>c. id_c c = Some changeId) (diffChanges st) of
        None \<Rightarrow> st
      | Some c \<Rightarrow>
          if resolved c then st
          else
            (let st1 = st\<lparr>diffChanges :=
                            updateFirst (\<lambda>c. id_c c = Some changeId)
                              (\<lambda>c. c\<lparr>resolved := True, accepted := True\<rparr>) (diffChanges st)\<rparr>
             in if \<not> editorEl then st1 else checkAllChangesResolved st1))"

definition rejectSingleChange :: "nat \<Rightarrow> bool \<Rightarrow> app_state \<Rightarrow> app_state" where
  "rejectSingleChange changeId editorEl st =
     (case List.find (\<lambda>c. id_c c = Some changeId) (diffChanges st) of
        None \<Rightarrow> st
      | Some c \<Rightarrow>
          if resolved c then st
          else
            (let st1 = st\<lparr>diffChanges :=
                            updateFirst (\<lambda>c. id_c c = Some changeId)
                              (\<lambda>c. c\<lparr>resolved := True, rejected := True\<rparr>) (diffChanges st)\<rparr>
             in if \<not> editorEl then st1 else checkAllChangesResolved st1))"

datatype decision = Accept | Reject

definition resolveOne :: "decision \<Rightarrow> nat \<Rightarrow> bool \<Rightarrow> app_state \<Rightarrow> app_state" where
  \<comment> \<open>the click handlers: the accept button calls the first function, the reject button
      the second\<close>
  "resolveOne d changeId editorEl st =
     (case d of
        Accept \<Rightarrow> acceptSingleChange changeId editorEl st
      | Reject \<Rightarrow> rejectSingleChange changeId editorEl st)"

fun indexOf :: "jsstring \<Rightarrow> jsstring \<Rightarrow> int" where
  \<comment> \<open>\<open>text.indexOf(search)\<close>: the first index at which \<open>search\<close> occurs, or \<open>-1\<close>\<close>
  "indexOf [] search = (if search = [] then 0 else - 1)"
| "indexOf (c # cs) search =
     (if stripPrefix search (c # cs) \<noteq> None then 0
      else (let i = indexOf cs search in if i = - 1 then - 1 else i + 1))"

definition acceptChanges :: "app_state \<Rightarrow> jsstring option \<times> app_state" where
  \<comment> \<open>the markdown handed to \<open>setContentFromMarkdown\<close> (\<open>None\<close> when the function returns at
      once), and the state afterwards\<close>
  "acceptChanges st =
     (if \<not> hasPendingDiff st then (None, st)
      else
        (let newContent =
               (if isSelectionEdit st
                then (let fullContent = originalFullContent st;
                          idx = indexOf fullContent (originalContent st)
                      in if idx \<noteq> - 1
                         then take (nat idx) fullContent @ proposedContent st
                              @ drop (nat idx + length (originalContent st)) fullContent
                         else proposedContent st)
                else proposedContent st)
         in (Some newContent, (clearDiff st)\<lparr>isModified := True\<rparr>)))"

section \<open>Notions used in the statements and proofs\<close>

definition splice_state :: "jsstring \<Rightarrow> app_state" where
  \<comment> \<open>a pending selection edit that replaces \<open>b\<close> by \<open>xy\<close>, in a given full document\<close>
  "splice_state full =
     \<lparr>isModified = False, hasPendingDiff = True, originalContent = js ''b'',
      originalHtml = [], originalFullContent = full, proposedContent = js ''xy'',
      proposedHtml = [], isSelectionEdit = True, diffChanges = []\<rparr>"

definition two_changes :: "ChangeUnit list" where
  "two_changes =
     [new_unit (Some 0) change [\<lparr>type_d = DIFF_DELETE, text_d = js ''old''\<rparr>,
                                \<lparr>type_d = DIFF_INSERT, text_d = js ''new''\<rparr>],
      new_unit None equal [\<lparr>type_d = DIFF_EQUAL, text_d = js '' and ''\<rparr>],
      new_unit (Some 1) change [\<lparr>type_d = DIFF_INSERT, text_d = js ''more''\<rparr>]]"

definition review_state :: app_state where
  "review_state =
     \<lparr>isModified = False, hasPendingDiff = True, originalContent = js ''old and '',
      originalHtml = [], originalFullContent = [], proposedContent = js ''new and more'',
      proposedHtml = [], isSelectionEdit = False, diffChanges = two_changes\<rparr>"

definition made_of :: "jsstring set \<Rightarrow> DiffPart \<Rightarrow> bool" where
  "made_of T p \<longleftrightarrow> (\<exists>ws. ws \<noteq> [] \<and> set ws \<subseteq> T \<and> text_d p = concat ws)"

definition coarse_diff :: diff_engine where
  \<comment> \<open>a diff engine for the examples: equal inputs give one equal chunk and an empty
      input gives one chunk for the other input, as \<open>diff_main\<close> does; otherwise the whole
      first string is deleted and the whole second string inserted\<close>
  "coarse_diff x y =
     (if x = y then (if x = [] then [] else [(DIFF_EQUAL, x)])
      else (if x = [] then [] else [(DIFF_DELETE, x)])
           @ (if y = [] then [] else [(DIFF_INSERT, y)]))"

lemmas word_diff_eval =
  js_def same_class_def isSpace_def computeWordDiff_def coarse_diff_def initial_word_state_def
  getWordChar_def fromCharCode_def buildReverseMap_def expandDiffs_def expandChunk_def
  mergeParts_def mergeStep_def isHighSurrogate_def isLowSurrogate_def

definition part_form :: "(nat \<Rightarrow> jsstring \<Rightarrow> jsstring) \<Rightarrow> (nat \<Rightarrow> jsstring \<Rightarrow> jsstring) \<Rightarrow> nat \<Rightarrow> DiffPart \<Rightarrow> jsstring" where
  "part_form del ins i p =
     (case type_d p of
        DIFF_DELETE \<Rightarrow> del i (text_d p)
      | DIFF_INSERT \<Rightarrow> ins i (text_d p)
      | DIFF_EQUAL \<Rightarrow> [])"

definition unit_form :: "(nat \<Rightarrow> jsstring \<Rightarrow> jsstring) \<Rightarrow> (nat \<Rightarrow> jsstring \<Rightarrow> jsstring) \<Rightarrow> ChangeUnit \<Rightarrow> jsstring" where
  "unit_form del ins u =
     (case type_c u of
        equal \<Rightarrow> (case parts u of [] \<Rightarrow> [] | p # ps \<Rightarrow> text_d p)
      | change \<Rightarrow>
          (case id_c u of
             None \<Rightarrow> []
           | Some i \<Rightarrow> concat (map (part_form del ins i) (parts u))))"

definition doc_form :: "(nat \<Rightarrow> jsstring \<Rightarrow> jsstring) \<Rightarrow> (nat \<Rightarrow> jsstring \<Rightarrow> jsstring) \<Rightarrow> ChangeUnit list \<Rightarrow> jsstring" where
  "doc_form del ins us = concat (map (unit_form del ins) us)"

definition span_of :: "string \<Rightarrow> nat \<Rightarrow> jsstring \<Rightarrow> jsstring" where
  \<open>span_of cls i t =
     js ''<span class="'' @ js cls @ js ''" data-change-id="'' @ decimal i @ js ''">'' @ t
     @ js ''</span>''\<close>

definition expected_markup :: "ChangeUnit list \<Rightarrow> jsstring" where
  "expected_markup us = doc_form (span_of ''diff-delete'') (span_of ''diff-insert'') us"

definition placeholder_fragments :: "jsstring list" where
  \<open>placeholder_fragments =
     [js ''<diffdelete data-id="'', js ''</diffdelete>'',
      js ''<diffinsert data-id="'', js ''</diffinsert>'']\<close>

definition clean_text :: "jsstring \<Rightarrow> bool" where
  "clean_text t \<longleftrightarrow> NUL \<notin> set t \<and> list_all (\<lambda>f. \<not> sublist f t) placeholder_fragments"

definition del_like :: "jsstring \<Rightarrow> bool" where
  "del_like t \<longleftrightarrow> take 3 t = js ''DEL'' \<and> drop 3 t \<noteq> [] \<and> list_all isDigit (drop 3 t)"

definition part_ok :: "DiffPart \<Rightarrow> bool" where
  "part_ok p \<longleftrightarrow>
     (case type_d p of
        DIFF_DELETE \<Rightarrow> clean_text (text_d p)
      | DIFF_INSERT \<Rightarrow> clean_text (text_d p) \<and> \<not> del_like (text_d p)
      | DIFF_EQUAL \<Rightarrow> True)"

definition unit_ok :: "ChangeUnit \<Rightarrow> bool" where
  "unit_ok u \<longleftrightarrow>
     (case type_c u of
        equal \<Rightarrow>
          (case parts u of
             [] \<Rightarrow> False
           | p # ps \<Rightarrow> clean_text (text_d p) \<and> \<not> del_like (text_d p))
      | change \<Rightarrow>
          (case id_c u of
             None \<Rightarrow> False
           | Some i \<Rightarrow>
               i < 2 ^ 53 \<and> list_all part_ok (parts u)
               \<and> list_ex (\<lambda>p. type_d p \<noteq> DIFF_EQUAL) (parts u)))"

fun no_adjacent_equal :: "ChangeUnit list \<Rightarrow> bool" where
  "no_adjacent_equal (u # v # us) =
     (\<not> (type_c u = equal \<and> type_c v = equal) \<and> no_adjacent_equal (v # us))"
| "no_adjacent_equal us = True"

definition cex_units :: "ChangeUnit list" where
  "cex_units =
     [new_unit None equal [\<lparr>type_d = DIFF_EQUAL, text_d = js ''a ''\<rparr>],
      new_unit (Some 0) change [\<lparr>type_d = DIFF_DELETE, text_d = js ''b''\<rparr>,
                                \<lparr>type_d = DIFF_INSERT, text_d = js ''DEL5''\<rparr>],
      new_unit None equal [\<lparr>type_d = DIFF_EQUAL, text_d = js '' c''\<rparr>],
      new_unit (Some 1) change [\<lparr>type_d = DIFF_DELETE, text_d = js '' d''\<rparr>]]"

definition src :: "marker_regex \<Rightarrow> nat \<Rightarrow> jsstring \<Rightarrow> jsstring" where
  "src re i t = re_open re @ decimal i @ re_id_end re @ t @ re_close re"

definition dst :: "marker_regex \<Rightarrow> nat \<Rightarrow> jsstring \<Rightarrow> jsstring" where
  "dst re i t = out_start re @ decimal i @ out_middle re @ t @ out_end re"

definition calm :: "jsstring \<Rightarrow> bool" where
  "calm r \<longleftrightarrow> (\<exists>t r'. r = t @ r' \<and> NUL \<notin> set t \<and> \<not> del_like t \<and> (r' = [] \<or> hd r' = NUL))"

definition tagged :: "jschar \<Rightarrow> jsstring \<Rightarrow> bool" where
  "tagged c r \<longleftrightarrow> r = [] \<or> hd r = c"

definition replacement_units :: "ChangeUnit list" where
  "replacement_units =
     [new_unit None equal [\<lparr>type_d = DIFF_EQUAL, text_d = js ''hello ''\<rparr>],
      new_unit (Some 0) change [\<lparr>type_d = DIFF_DELETE, text_d = js ''world''\<rparr>,
                                \<lparr>type_d = DIFF_INSERT, text_d = js ''universe''\<rparr>]]"

definition sibling_units :: "ChangeUnit list" where
  "sibling_units =
     [new_unit None equal [\<lparr>type_d = DIFF_EQUAL, text_d = js ''a ''\<rparr>],
      new_unit (Some 0) change [\<lparr>type_d = DIFF_DELETE, text_d = js ''DEL5''\<rparr>,
                                \<lparr>type_d = DIFF_INSERT, text_d = js ''INS5''\<rparr>],
      new_unit None equal [\<lparr>type_d = DIFF_EQUAL, text_d = js '' c''\<rparr>],
      new_unit (Some 1) change [\<lparr>type_d = DIFF_DELETE, text_d = js '' d''\<rparr>]]"

lemmas marker_eval =
  js_def NUL_def isDigit_def matchAt_def del_marker_def ins_marker_def del_placeholder_def
  ins_placeholder_def markersToPlaceholders_def placeholdersToSpans_def

definition cex_parts :: "DiffPart list" where
  \<comment> \<open>the word diff of \<open>a b c d\<close> and \<open>a DEL5 c\<close>\<close>
  "cex_parts =
     [\<lparr>type_d = DIFF_EQUAL, text_d = js ''a ''\<rparr>,
      \<lparr>type_d = DIFF_DELETE, text_d = js ''b''\<rparr>,
      \<lparr>type_d = DIFF_INSERT, text_d = js ''DEL5''\<rparr>,
      \<lparr>type_d = DIFF_EQUAL, text_d = js '' c''\<rparr>,
      \<lparr>type_d = DIFF_DELETE, text_d = js '' d''\<rparr>]"

definition cex_markdown :: jsstring where
  "cex_markdown =
     js ''a '' @ NUL # js ''DEL0'' @ NUL # js ''b'' @ NUL # js ''/DEL'' @ NUL
     # NUL # js ''INS0'' @ NUL # js ''DEL5'' @ NUL # js ''/INS'' @ NUL
     # js '' c'' @ NUL # js ''DEL1'' @ NUL # js '' d'' @ NUL # js ''/DEL'' @ [NUL]"

definition cex_markup :: jsstring where
  \<open>cex_markup =
     js ''a <span class="diff-delete" data-change-id="0">b</span>'' @ NUL
     # js ''INS0<span class="diff-delete" data-change-id="5">/INS'' @ NUL # js '' c'' @ NUL
     # js ''DEL1'' @ NUL # js '' d</span>''\<close>

definition tag_units :: "ChangeUnit list" where
  \<open>tag_units =
     [new_unit (Some 0) change [\<lparr>type_d = DIFF_DELETE, text_d = js ''</diffdelete>x''\<rparr>]]\<close>

datatype marker_kind = Del | Ins

datatype piece =
    Matched marker_kind jsstring jsstring
  | Lone_open marker_kind jsstring
  | Lone_close marker_kind

fun regex_of :: "marker_kind \<Rightarrow> marker_regex" where
  "regex_of Del = del_marker"
| "regex_of Ins = ins_marker"

definition open_marker :: "marker_kind \<Rightarrow> jsstring \<Rightarrow> jsstring" where
  \<comment> \<open>\<open>\x00DEL{id}\x00\<close> or \<open>\x00INS{id}\x00\<close>\<close>
  "open_marker k ds = re_open (regex_of k) @ ds @ re_id_end (regex_of k)"

definition close_marker :: "marker_kind \<Rightarrow> jsstring" where
  \<comment> \<open>\<open>\x00/DEL\x00\<close> or \<open>\x00/INS\x00\<close>\<close>
  "close_marker k = re_close (regex_of k)"

definition placeholder :: "marker_kind \<Rightarrow> jsstring \<Rightarrow> jsstring \<Rightarrow> jsstring" where
  \<comment> \<open>the replacement string of the expression, with \<open>$1\<close> and \<open>$2\<close> filled in\<close>
  "placeholder k ds c =
     out_start (regex_of k) @ ds @ out_middle (regex_of k) @ c @ out_end (regex_of k)"

fun marker_form :: "piece \<Rightarrow> jsstring" where
  "marker_form (Matched k ds c) = open_marker k ds @ c @ close_marker k"
| "marker_form (Lone_open k ds) = open_marker k ds"
| "marker_form (Lone_close k) = close_marker k"

fun placeholder_form :: "piece \<Rightarrow> jsstring" where
  \<comment> \<open>a complete pair as its placeholder element, a marker on its own as it is\<close>
  "placeholder_form (Matched k ds c) = placeholder k ds c"
| "placeholder_form (Lone_open k ds) = open_marker k ds"
| "placeholder_form (Lone_close k) = close_marker k"

definition text_of :: "(piece \<Rightarrow> jsstring) \<Rightarrow> jsstring \<Rightarrow> (piece \<times> jsstring) list \<Rightarrow> jsstring" where
  "text_of f t0 items = t0 @ concat (map (\<lambda>(p, t). f p @ t) items)"

fun letters :: "marker_kind \<Rightarrow> jsstring" where
  "letters Del = js ''DEL''"
| "letters Ins = js ''INS''"

definition opener_inside :: "marker_kind \<Rightarrow> jsstring \<Rightarrow> bool" where
  \<comment> \<open>\<open>DEL\<close> or \<open>INS\<close> followed by digits only, at least one\<close>
  "opener_inside k u \<longleftrightarrow> take 3 u = letters k \<and> drop 3 u \<noteq> [] \<and> list_all isDigit (drop 3 u)"

definition marker_inside :: "jsstring \<Rightarrow> bool" where
  \<comment> \<open>what stands between the two \<open>\x00\<close> of one of the four markers\<close>
  "marker_inside u \<longleftrightarrow>
     opener_inside Del u \<or> opener_inside Ins u \<or> u = 0x2F # letters Del \<or> u = 0x2F # letters Ins"

definition plain :: "jsstring \<Rightarrow> bool" where
  "plain u \<longleftrightarrow> NUL \<notin> set u \<and> \<not> marker_inside u"

definition digits :: "jsstring \<Rightarrow> bool" where
  "digits ds \<longleftrightarrow> ds \<noteq> [] \<and> list_all isDigit ds"

fun closes :: "marker_kind \<Rightarrow> piece \<Rightarrow> bool" where
  \<comment> \<open>the piece has a closing marker of the kind\<close>
  "closes k (Matched k' ds c) = (k' = k)"
| "closes k (Lone_open k' ds) = False"
| "closes k (Lone_close k') = (k' = k)"

fun piece_ok :: "piece \<Rightarrow> bool" where
  "piece_ok (Matched k ds c) = (digits ds \<and> plain c)"
| "piece_ok (Lone_open k ds) = digits ds"
| "piece_ok (Lone_close k) = True"

fun stays_open :: "piece \<Rightarrow> (piece \<times> jsstring) list \<Rightarrow> bool" where
  \<comment> \<open>after an opening marker on its own comes no closing marker of its kind\<close>
  "stays_open (Lone_open k ds) rest = (\<not> list_ex (\<lambda>(q, t). closes k q) rest)"
| "stays_open p rest = True"

fun well_formed :: "(piece \<times> jsstring) list \<Rightarrow> bool" where
  "well_formed [] = True"
| "well_formed ((p, t) # rest) = (piece_ok p \<and> plain t \<and> stays_open p rest \<and> well_formed rest)"

definition blocks :: "jsstring list \<Rightarrow> jsstring" where
  \<comment> \<open>stretches without \<open>\x00\<close>, each after a \<open>\x00\<close>\<close>
  "blocks us = concat (map (\<lambda>u. NUL # u) us)"

fun chunks :: "piece \<Rightarrow> jsstring \<Rightarrow> jsstring list" where
  \<comment> \<open>the stretches between the \<open>\x00\<close> of a piece in marker form, and the text after it\<close>
  "chunks (Matched k ds c) t = [letters k @ ds, c, 0x2F # letters k, t]"
| "chunks (Lone_open k ds) t = [letters k @ ds, t]"
| "chunks (Lone_close k) t = [0x2F # letters k, t]"

definition body :: "(piece \<Rightarrow> jsstring) \<Rightarrow> (piece \<times> jsstring) list \<Rightarrow> jsstring" where
  "body f items = concat (map (\<lambda>(p, t). f p @ t) items)"

fun rewritten :: "marker_kind \<Rightarrow> piece \<Rightarrow> jsstring" where
  \<comment> \<open>what one expression makes of a piece: the pairs of its kind become placeholders\<close>
  "rewritten K (Matched k ds c) = (if k = K then placeholder k ds c else marker_form (Matched k ds c))"
| "rewritten K (Lone_open k ds) = open_marker k ds"
| "rewritten K (Lone_close k) = close_marker k"

definition calm_for :: "marker_kind \<Rightarrow> jsstring \<Rightarrow> bool" where
  \<comment> \<open>a stretch that is no part of a marker of the kind when it stands between two \<open>\x00\<close>\<close>
  "calm_for K u \<longleftrightarrow> NUL \<notin> set u \<and> \<not> opener_inside K u \<and> u \<noteq> 0x2F # letters K"

fun piece_fits :: "marker_kind \<Rightarrow> piece \<Rightarrow> (piece \<times> jsstring) list \<Rightarrow> bool" where
  "piece_fits K (Matched k ds c) rest = (digits ds \<and> NUL \<notin> set c \<and> (k \<noteq> K \<longrightarrow> calm_for K c))"
| "piece_fits K (Lone_open k ds) rest =
     (digits ds \<and> (k = K \<longrightarrow> \<not> list_ex (\<lambda>(q, t). closes K q) rest))"
| "piece_fits K (Lone_close k) rest = True"

fun fits :: "marker_kind \<Rightarrow> (piece \<times> jsstring) list \<Rightarrow> bool" where
  "fits K [] = True"
| "fits K ((p, t) # rest) = (calm_for K t \<and> piece_fits K p rest \<and> fits K rest)"

fun is_del_pair :: "piece \<Rightarrow> bool" where
  "is_del_pair (Matched k ds c) = (k = Del)"
| "is_del_pair p = False"

fun absorbed :: "(piece \<times> jsstring) list \<Rightarrow> jsstring \<times> (piece \<times> jsstring) list" where
  \<comment> \<open>the text that leads the list once the delete pairs are placeholders, and the
      other pieces, each with the text up to the next of them\<close>
  "absorbed [] = ([], [])"
| "absorbed ((p, t) # rest) =
     (case absorbed rest of
        (u, rest') \<Rightarrow>
          if is_del_pair p then (placeholder_form p @ t @ u, rest') else ([], (p, t @ u) # rest'))"

definition overlap_text :: jsstring where
  \<comment> \<open>\<open>\x00INS1\x00DEL5\x00x\x00/DEL\x00\<close>\<close>
  "overlap_text = NUL # js ''INS1'' @ NUL # js ''DEL5'' @ NUL # js ''x'' @ NUL # js ''/DEL'' @ [NUL]"

definition example_pieces :: "(piece \<times> jsstring) list" where
  "example_pieces =
     [(Matched Del (js ''1'') (js ''x''), js '' b ''),
      (Lone_close Ins, []),
      (Matched Ins (js ''2'') (js ''y''), js '' c''),
      (Lone_open Del (js ''7''), js '' tail''),
      (Lone_open Ins (js ''3''), [])]"

lemmas piece_eval =
  text_of_def open_marker_def close_marker_def placeholder_def plain_def marker_inside_def
  opener_inside_def digits_def

fun add_new :: "jsstring list \<Rightarrow> jsstring list \<Rightarrow> jsstring list" where
  \<comment> \<open>the keys of \<open>wordMap\<close>, in insertion order, after more tokens have been mapped\<close>
  "add_new ds [] = ds"
| "add_new ds (t # ts) = add_new (if t \<in> set ds then ds else ds @ [t]) ts"

definition coded :: "nat \<Rightarrow> jsstring list \<Rightarrow> (jsstring \<times> jsstring) list" where
  \<comment> \<open>the map that gives the keys, in order, the codes from \<open>c0\<close> on\<close>
  "coded c0 ds = zip ds (map (\<lambda>k. fromCharCode (c0 + k)) [0 ..< length ds])"

definition distinct_tokens :: "jsstring \<Rightarrow> jsstring \<Rightarrow> jsstring list" where
  \<comment> \<open>the distinct tokens of the two texts, in the order of their first occurrence\<close>
  "distinct_tokens original proposed = add_new [] (tokenize original @ tokenize proposed)"

definition nth_word :: "nat \<Rightarrow> jsstring" where
  \<comment> \<open>two letters of the block U+0100 to U+01FF: the word number \<open>k\<close> of the long input\<close>
  "nth_word k = [word_of_nat (0x100 + k div 256), word_of_nat (0x100 + k mod 256)]"

fun join_words :: "jsstring list \<Rightarrow> jsstring" where
  \<comment> \<open>the words with one space between neighbours\<close>
  "join_words [] = []"
| "join_words [w] = w"
| "join_words (w # v # ws) = w @ 0x20 # join_words (v # ws)"

definition words_upto :: "nat \<Rightarrow> jsstring" where
  \<comment> \<open>the text of the first \<open>n\<close> words\<close>
  "words_upto n = join_words (map nth_word [0 ..< n])"

definition many_words :: jsstring where
  \<comment> \<open>a text of 65536 different words\<close>
  "many_words = words_upto 65536"

fun spaced :: "jsstring list \<Rightarrow> jsstring list" where
  \<comment> \<open>the tokens of the joined words\<close>
  "spaced [] = []"
| "spaced [w] = [w]"
| "spaced (w # v # ws) = w # [0x20] # spaced (v # ws)"

definition proper_word :: "jsstring \<Rightarrow> bool" where
  "proper_word w \<longleftrightarrow> w \<noteq> [] \<and> list_all (\<lambda>c. \<not> isSpace c) w"

definition reconstruct_original :: "DiffPart list \<Rightarrow> jsstring" where
  \<comment> \<open>the text of the delete and equal parts, in order\<close>
  "reconstruct_original ps = concat (map text_d (filter (\<lambda>p. type_d p \<noteq> DIFF_INSERT) ps))"

definition reconstruct_proposed :: "DiffPart list \<Rightarrow> jsstring" where
  \<comment> \<open>the text of the insert and equal parts, in order\<close>
  "reconstruct_proposed ps = concat (map text_d (filter (\<lambda>p. type_d p \<noteq> DIFF_DELETE) ps))"

definition code_of :: "jsstring \<Rightarrow> jsstring \<Rightarrow> jsstring \<Rightarrow> jsstring" where
  \<comment> \<open>\<open>wordMap.get(t)\<close> after both texts have been mapped\<close>
  "code_of a b t = the (map_of (wordMap_of a b) t)"

definition chunks_original :: "(DiffOp \<times> jsstring) list \<Rightarrow> jsstring" where
  \<comment> \<open>what the delete and equal chunks of a diff spell\<close>
  "chunks_original D = concat (map snd (filter (\<lambda>c. fst c \<noteq> DIFF_INSERT) D))"

definition chunks_proposed :: "(DiffOp \<times> jsstring) list \<Rightarrow> jsstring" where
  \<comment> \<open>what the insert and equal chunks of a diff spell\<close>
  "chunks_proposed D = concat (map snd (filter (\<lambda>c. fst c \<noteq> DIFF_DELETE) D))"

definition valid_diff :: "diff_engine \<Rightarrow> bool" where
  \<comment> \<open>the contract of \<open>diff_main\<close> and \<open>diff_cleanupSemantic\<close>: the chunks spell the two
      strings, and equal strings give equal chunks only\<close>
  "valid_diff dmp \<longleftrightarrow>
     (\<forall>x y. chunks_original (dmp x y) = x \<and> chunks_proposed (dmp x y) = y)
     \<and> (\<forall>x. list_all (\<lambda>c. fst c = DIFF_EQUAL) (dmp x x))"

definition token_count :: "jsstring \<Rightarrow> jsstring \<Rightarrow> nat" where
  \<comment> \<open>the number of distinct tokens of the two texts\<close>
  "token_count a b = card (set (tokenize a) \<union> set (tokenize b))"

definition decoded :: "(jsstring \<rightharpoonup> jsstring) \<Rightarrow> jschar \<Rightarrow> jsstring" where
  \<comment> \<open>the token that the reverse map holds for a code unit, or nothing\<close>
  "decoded rm c = (case rm [c] of None \<Rightarrow> [] | Some w \<Rightarrow> w)"

section \<open>Properties of the change grouper\<close>

lemma upt_shift: "c # [Suc c ..< Suc (c + n)] = [c ..< Suc (c + n)]"
  by (simp add: upt_conv_Cons del: upt_Suc)

lemma non_null_ids_Cons_None: "id_c u = None \<Longrightarrow> non_null_ids (u # us) = non_null_ids us"
  by (simp add: non_null_ids_def)

lemma non_null_ids_Cons_Some: "id_c u = Some i \<Longrightarrow> non_null_ids (u # us) = i # non_null_ids us"
  by (simp add: non_null_ids_def)

lemma change_units_Cons:
  "change_units (u # us) = (if type_c u = change then u # change_units us else change_units us)"
  by (simp add: change_units_def)

lemma non_null_ids_groupFrom:
  "non_null_ids (groupFrom c ds) = [c ..< c + length (change_units (groupFrom c ds))]"
proof (induction c ds rule: groupFrom.induct)
  case (1 changeId)
  then show ?case by (simp add: non_null_ids_def change_units_def)
next
  case (2 changeId d rest)
  show ?case
  proof (cases "type_d d")
    case DIFF_EQUAL
    then show ?thesis
      using "2.IH"(4) by (simp add: non_null_ids_Cons_None change_units_Cons new_unit_def)
  next
    case DIFF_INSERT
    then show ?thesis
      using "2.IH"(5)
      by (simp add: non_null_ids_Cons_Some change_units_Cons new_unit_def upt_shift del: upt_Suc)
  next
    case DIFF_DELETE
    show ?thesis
    proof (cases rest)
      case Nil
      then show ?thesis
        using DIFF_DELETE by (simp add: new_unit_def non_null_ids_def change_units_def)
    next
      case (Cons d2 rest2)
      then show ?thesis
        using DIFF_DELETE "2.IH"(2) [OF DIFF_DELETE Cons] "2.IH"(3) [OF DIFF_DELETE Cons]
        by (simp add: non_null_ids_Cons_Some change_units_Cons new_unit_def upt_shift
            del: upt_Suc)
    qed
  qed
qed

lemma change_ids_groupFrom:
  "map id_c (change_units (groupFrom c ds)) = map Some (non_null_ids (groupFrom c ds))"
proof (induction c ds rule: groupFrom.induct)
  case (1 changeId)
  then show ?case by (simp add: non_null_ids_def change_units_def)
next
  case (2 changeId d rest)
  show ?case
  proof (cases "type_d d")
    case DIFF_EQUAL
    then show ?thesis
      using "2.IH"(4) by (simp add: non_null_ids_Cons_None change_units_Cons new_unit_def)
  next
    case DIFF_INSERT
    then show ?thesis
      using "2.IH"(5) by (simp add: non_null_ids_Cons_Some change_units_Cons new_unit_def)
  next
    case DIFF_DELETE
    show ?thesis
    proof (cases rest)
      case Nil
      then show ?thesis
        using DIFF_DELETE by (simp add: new_unit_def non_null_ids_def change_units_def)
    next
      case (Cons d2 rest2)
      then show ?thesis
        using DIFF_DELETE "2.IH"(2) [OF DIFF_DELETE Cons] "2.IH"(3) [OF DIFF_DELETE Cons]
        by (simp add: non_null_ids_Cons_Some change_units_Cons new_unit_def)
    qed
  qed
qed

text \<open>
  Claim C3.  For every list of diff parts, the ids that \<open>groupDiffsIntoChanges\<close> assigns
  and that are not \<open>null\<close> are, in output order, exactly \<open>0, 1, \<dots>, n - 1\<close>, where \<open>n\<close> is
  the number of units of type \<open>change\<close>; and they are the ids of those units, in order.
\<close>

theorem groupDiffsIntoChanges_ids_dense:
  "non_null_ids (groupDiffsIntoChanges diffs)
     = [0 ..< length (change_units (groupDiffsIntoChanges diffs))]
   \<and> map id_c (change_units (groupDiffsIntoChanges diffs))
     = map Some [0 ..< length (change_units (groupDiffsIntoChanges diffs))]"
  using non_null_ids_groupFrom [of 0 diffs] change_ids_groupFrom [of 0 diffs]
  by (simp add: groupDiffsIntoChanges_def)

theorem groupDiffsIntoChanges_ids_dense_witness:
  "non_null_ids (groupDiffsIntoChanges
      [\<lparr>type_d = DIFF_DELETE, text_d = js ''first''\<rparr>, \<lparr>type_d = DIFF_INSERT, text_d = js ''one''\<rparr>,
       \<lparr>type_d = DIFF_EQUAL, text_d = js '' middle ''\<rparr>,
       \<lparr>type_d = DIFF_INSERT, text_d = js ''two''\<rparr>, \<lparr>type_d = DIFF_DELETE, text_d = js ''x''\<rparr>])
   = [0, 1, 2]"
proof -
  have "length (change_units (groupDiffsIntoChanges
      [\<lparr>type_d = DIFF_DELETE, text_d = js ''first''\<rparr>, \<lparr>type_d = DIFF_INSERT, text_d = js ''one''\<rparr>,
       \<lparr>type_d = DIFF_EQUAL, text_d = js '' middle ''\<rparr>,
       \<lparr>type_d = DIFF_INSERT, text_d = js ''two''\<rparr>, \<lparr>type_d = DIFF_DELETE, text_d = js ''x''\<rparr>]))
     = 3"
    by (simp add: groupDiffsIntoChanges_def change_units_def new_unit_def)
  with groupDiffsIntoChanges_ids_dense [of
      "[\<lparr>type_d = DIFF_DELETE, text_d = js ''first''\<rparr>, \<lparr>type_d = DIFF_INSERT, text_d = js ''one''\<rparr>,
       \<lparr>type_d = DIFF_EQUAL, text_d = js '' middle ''\<rparr>,
       \<lparr>type_d = DIFF_INSERT, text_d = js ''two''\<rparr>, \<lparr>type_d = DIFF_DELETE, text_d = js ''x''\<rparr>]"]
  show ?thesis by (simp add: upt_rec)
qed

section \<open>Properties of the diff state\<close>

lemma dom_createInitialDiffState:
  "dom createInitialDiffState =
     {''hasPendingDiff'', ''originalContent'', ''originalHtml'', ''originalFullContent'',
      ''proposedContent'', ''proposedHtml'', ''isSelectionEdit'', ''selectedText'',
      ''selectionStart'', ''selectionEnd'', ''diffChanges''}"
  unfolding createInitialDiffState_def by (simp add: insert_commute)

lemma card_dom_createInitialDiffState: "card (dom createInitialDiffState) = 11"
  unfolding dom_createInitialDiffState by simp

text \<open>
  Claim C10, as stated, speaks of twelve diff-state fields.  The object of
  \<open>createInitialDiffState\<close> has eleven properties (the eleven the claim lists, and the
  eleven that \<open>clearDiffState\<close> assigns), not twelve.
\<close>

theorem diff_state_fields_not_twelve: "card (dom createInitialDiffState) \<noteq> 12"
  unfolding dom_createInitialDiffState by simp

text \<open>
  Claim C10, amended.  \<open>clearDiffState\<close>, applied to any state object, returns the very
  same object (the same reference), and afterwards the object agrees with the object of
  \<open>createInitialDiffState()\<close> on every one of its eleven properties: \<open>hasPendingDiff\<close>,
  \<open>originalContent\<close>, \<open>originalHtml\<close>, \<open>originalFullContent\<close>, \<open>proposedContent\<close>,
  \<open>proposedHtml\<close>, \<open>isSelectionEdit\<close>, \<open>selectedText\<close>, \<open>selectionStart\<close>, \<open>selectionEnd\<close>
  and \<open>diffChanges\<close>.
\<close>

theorem clearDiffState_resets:
  "snd (clearDiffState h state) = state
   \<and> fst (clearDiffState h state) state |` dom createInitialDiffState = createInitialDiffState
   \<and> dom createInitialDiffState =
       {''hasPendingDiff'', ''originalContent'', ''originalHtml'', ''originalFullContent'',
        ''proposedContent'', ''proposedHtml'', ''isSelectionEdit'', ''selectedText'',
        ''selectionStart'', ''selectionEnd'', ''diffChanges''}
   \<and> card (dom createInitialDiffState) = 11"
proof (intro conjI)
  show "snd (clearDiffState h state) = state"
    by (simp add: clearDiffState_def)
  show "fst (clearDiffState h state) state |` dom createInitialDiffState = createInitialDiffState"
    unfolding dom_createInitialDiffState
    by (rule ext)
      (simp add: clearDiffState_def assign_def createInitialDiffState_def restrict_map_def)
  show "dom createInitialDiffState =
       {''hasPendingDiff'', ''originalContent'', ''originalHtml'', ''originalFullContent'',
        ''proposedContent'', ''proposedHtml'', ''isSelectionEdit'', ''selectedText'',
        ''selectionStart'', ''selectionEnd'', ''diffChanges''}"
    by (rule dom_createInitialDiffState)
  show "card (dom createInitialDiffState) = 11"
    by (rule card_dom_createInitialDiffState)
qed

theorem clearDiffState_resets_witness:
  "snd (clearDiffState ((\<lambda>r. Map.empty)(7 := [''selectedText'' \<mapsto> JStr (js ''stale''),
                                              ''scrollPosition'' \<mapsto> JNum 40])) 7) = 7
   \<and> fst (clearDiffState ((\<lambda>r. Map.empty)(7 := [''selectedText'' \<mapsto> JStr (js ''stale''),
                                                ''scrollPosition'' \<mapsto> JNum 40])) 7) 7
        |` dom createInitialDiffState = createInitialDiffState"
  using clearDiffState_resets [of "(\<lambda>r. Map.empty)(7 := [''selectedText'' \<mapsto> JStr (js ''stale''),
                                                        ''scrollPosition'' \<mapsto> JNum 40])" 7]
  by blast

section \<open>Accepting all changes of a selection edit\<close>

lemma stripPrefix_iff: "stripPrefix p s = Some r \<longleftrightarrow> s = p @ r"
  by (induction p s rule: stripPrefix.induct) auto

lemma stripPrefix_None_iff: "stripPrefix p s = None \<longleftrightarrow> \<not> prefix p s"
proof -
  have "stripPrefix p s \<noteq> None \<longleftrightarrow> prefix p s"
    by (auto simp add: stripPrefix_iff prefix_def)
  then show ?thesis by blast
qed

lemma indexOf_found:
  assumes "h = pre @ n @ post"
    and "\<And>pre' post'. h = pre' @ n @ post' \<Longrightarrow> length pre \<le> length pre'"
  shows "indexOf h n = int (length pre)"
  using assms
proof (induction h arbitrary: pre)
  case Nil
  then show ?case by simp
next
  case (Cons c cs)
  show ?case
  proof (cases "stripPrefix n (c # cs)")
    case (Some r)
    then have "c # cs = [] @ n @ r" by (simp add: stripPrefix_iff)
    from Cons.prems(2) [OF this] have "pre = []" by simp
    with Some show ?thesis by simp
  next
    case None
    have "pre \<noteq> []"
    proof
      assume "pre = []"
      with Cons.prems(1) have "stripPrefix n (c # cs) = Some post" by (simp add: stripPrefix_iff)
      with None show False by simp
    qed
    then obtain pre1 where pre: "pre = c # pre1" and cs: "cs = pre1 @ n @ post"
      using Cons.prems(1) by (cases pre) auto
    have "\<And>pre' post'. cs = pre' @ n @ post' \<Longrightarrow> length pre1 \<le> length pre'"
    proof -
      fix pre' post' assume "cs = pre' @ n @ post'"
      then have "c # cs = (c # pre') @ n @ post'" by simp
      from Cons.prems(2) [OF this] show "length pre1 \<le> length pre'" using pre by simp
    qed
    from Cons.IH [OF cs this] have "indexOf cs n = int (length pre1)" .
    with None pre show ?thesis by (simp add: Let_def)
  qed
qed

lemma indexOf_not_found:
  assumes "\<And>pre post. h \<noteq> pre @ n @ post"
  shows "indexOf h n = - 1"
  using assms
proof (induction h)
  case Nil
  then show ?case by (cases n) auto
next
  case (Cons c cs)
  have none: "stripPrefix n (c # cs) = None"
  proof (cases "stripPrefix n (c # cs)")
    case (Some r)
    then have "c # cs = [] @ n @ r" by (simp add: stripPrefix_iff)
    with Cons.prems show ?thesis by blast
  qed simp
  have "\<And>pre post. cs \<noteq> pre @ n @ post"
  proof
    fix pre post assume "cs = pre @ n @ post"
    then have "c # cs = (c # pre) @ n @ post" by simp
    with Cons.prems show False by blast
  qed
  from Cons.IH [OF this] none show ?case by simp
qed

text \<open>
  Claim C5.  For a pending selection edit, \<open>acceptChanges\<close> hands on the full document
  with the first exact occurrence of the original text replaced by the proposed text,
  when the original text occurs in the full document (the occurrence with the shortest
  text before it); when it does not occur, the proposed text itself is handed on, and
  the function still completes.
\<close>

theorem acceptChanges_selection_splice:
  assumes "hasPendingDiff st" and "isSelectionEdit st"
  shows "(\<forall>pre post.
            originalFullContent st = pre @ originalContent st @ post
            \<and> (\<forall>pre' post'. originalFullContent st = pre' @ originalContent st @ post'
                              \<longrightarrow> length pre \<le> length pre')
            \<longrightarrow> fst (acceptChanges st) = Some (pre @ proposedContent st @ post))
       \<and> ((\<forall>pre post. originalFullContent st \<noteq> pre @ originalContent st @ post)
            \<longrightarrow> fst (acceptChanges st) = Some (proposedContent st))"
proof (intro conjI allI impI)
  fix pre post
  assume h: "originalFullContent st = pre @ originalContent st @ post
            \<and> (\<forall>pre' post'. originalFullContent st = pre' @ originalContent st @ post'
                              \<longrightarrow> length pre \<le> length pre')"
  then have "indexOf (originalFullContent st) (originalContent st) = int (length pre)"
    by (intro indexOf_found [where post = post]) auto
  moreover have "take (length pre) (originalFullContent st) = pre"
    using h by simp
  moreover have "drop (length pre + length (originalContent st)) (originalFullContent st) = post"
    using h by simp
  ultimately show "fst (acceptChanges st) = Some (pre @ proposedContent st @ post)"
    using assms by (simp add: acceptChanges_def Let_def)
next
  assume "\<forall>pre post. originalFullContent st \<noteq> pre @ originalContent st @ post"
  then have "indexOf (originalFullContent st) (originalContent st) = - 1"
    by (intro indexOf_not_found) auto
  then show "fst (acceptChanges st) = Some (proposedContent st)"
    using assms by (simp add: acceptChanges_def Let_def)
qed

lemma js_b_first: "js ''abcb'' = pre' @ js ''b'' @ post' \<Longrightarrow> length (js ''a'') \<le> length pre'"
  by (cases pre') (simp_all add: js_def)

lemma js_no_b: "js ''acc'' \<noteq> pre @ js ''b'' @ post"
proof
  assume "js ''acc'' = pre @ js ''b'' @ post"
  then have "of_char (CHR ''b'') \<in> set (js ''acc'')" by (simp add: js_def)
  then show False by (simp add: js_def)
qed

theorem acceptChanges_selection_splice_witness:
  "fst (acceptChanges (splice_state (js ''abcb''))) = Some (js ''axycb'')
   \<and> fst (acceptChanges (splice_state (js ''acc''))) = Some (js ''xy'')"
proof
  have "originalFullContent (splice_state (js ''abcb''))
          = js ''a'' @ originalContent (splice_state (js ''abcb'')) @ js ''cb''"
    by (simp add: splice_state_def js_def)
  moreover have "\<forall>pre' post'. originalFullContent (splice_state (js ''abcb''))
          = pre' @ originalContent (splice_state (js ''abcb'')) @ post' \<longrightarrow> length (js ''a'') \<le> length pre'"
    using js_b_first by (simp add: splice_state_def)
  ultimately have "fst (acceptChanges (splice_state (js ''abcb'')))
      = Some (js ''a'' @ proposedContent (splice_state (js ''abcb'')) @ js ''cb'')"
    using acceptChanges_selection_splice [of "splice_state (js ''abcb'')"]
    by (simp add: splice_state_def)
  then show "fst (acceptChanges (splice_state (js ''abcb''))) = Some (js ''axycb'')"
    by (simp add: splice_state_def js_def)
next
  have "\<forall>pre post. originalFullContent (splice_state (js ''acc''))
          \<noteq> pre @ originalContent (splice_state (js ''acc'')) @ post"
    using js_no_b by (simp add: splice_state_def)
  then show "fst (acceptChanges (splice_state (js ''acc''))) = Some (js ''xy'')"
    using acceptChanges_selection_splice [of "splice_state (js ''acc'')"]
    by (simp add: splice_state_def)
qed

section \<open>Resolving one change\<close>

lemma find_updateFirst:
  assumes "\<And>x. P x \<Longrightarrow> P (f x)"
  shows "List.find P (updateFirst P f xs) = map_option f (List.find P xs)"
  using assms by (induction xs) auto

lemma resolveOne_unknown:
  "List.find (\<lambda>c. id_c c = Some i) (diffChanges st) = None \<Longrightarrow> resolveOne d i e st = st"
  by (cases d) (simp_all add: resolveOne_def acceptSingleChange_def rejectSingleChange_def)

lemma resolveOne_resolved:
  "List.find (\<lambda>c. id_c c = Some i) (diffChanges st) = Some c \<Longrightarrow> resolved c
     \<Longrightarrow> resolveOne d i e st = st"
  by (cases d) (simp_all add: resolveOne_def acceptSingleChange_def rejectSingleChange_def)

lemma resolveOne_after_check:
  assumes "List.find (\<lambda>c. id_c c = Some i) (diffChanges st1) = Some c" and "resolved c"
  shows "resolveOne d i e (checkAllChangesResolved st1) = checkAllChangesResolved st1"
proof (cases "length (unresolvedChanges st1) = 0")
  case True
  then have "diffChanges (checkAllChangesResolved st1) = []"
    by (simp add: checkAllChangesResolved_def finalizeChanges_def clearDiff_def)
  then show ?thesis by (intro resolveOne_unknown) simp
next
  case False
  then have "checkAllChangesResolved st1 = st1" by (simp add: checkAllChangesResolved_def)
  with assms show ?thesis by (simp add: resolveOne_resolved)
qed

lemma resolveOne_twice:
  "resolveOne d2 i e2 (resolveOne d1 i e1 st) = resolveOne d1 i e1 st"
proof (cases "List.find (\<lambda>c. id_c c = Some i) (diffChanges st)")
  case None
  then show ?thesis by (simp add: resolveOne_unknown)
next
  case (Some c)
  show ?thesis
  proof (cases "resolved c")
    case True
    with Some show ?thesis by (simp add: resolveOne_resolved)
  next
    case False
    define f where "f = (case d1 of Accept \<Rightarrow> (\<lambda>c. c\<lparr>resolved := True, accepted := True\<rparr>)
                                  | Reject \<Rightarrow> (\<lambda>c::ChangeUnit. c\<lparr>resolved := True, rejected := True\<rparr>))"
    define st1 where "st1 = st\<lparr>diffChanges := updateFirst (\<lambda>c. id_c c = Some i) f (diffChanges st)\<rparr>"
    have keep: "\<And>x. id_c x = Some i \<Longrightarrow> id_c (f x) = Some i"
      by (cases d1) (simp_all add: f_def)
    have "List.find (\<lambda>c. id_c c = Some i) (diffChanges st1) = Some (f c)"
      using Some find_updateFirst [of "\<lambda>c. id_c c = Some i" f, OF keep] by (simp add: st1_def)
    moreover have "resolved (f c)" by (cases d1) (simp_all add: f_def)
    ultimately have a: "resolveOne d2 i e2 st1 = st1"
      and b: "resolveOne d2 i e2 (checkAllChangesResolved st1) = checkAllChangesResolved st1"
      by (simp_all add: resolveOne_resolved resolveOne_after_check)
    have "resolveOne d1 i e1 st = (if \<not> e1 then st1 else checkAllChangesResolved st1)"
      using Some False
      by (cases d1)
        (simp_all add: resolveOne_def acceptSingleChange_def rejectSingleChange_def st1_def f_def)
    with a b show ?thesis by simp
  qed
qed

text \<open>
  Claim C6.  Resolving an id that no unit of the session has, or whose unit is already
  resolved, changes nothing; and after any resolution of an id, a second resolution of
  the same id, with the same or the other decision, leaves the whole state as it is, in
  particular the \<open>accepted\<close> and \<open>rejected\<close> flags and the number of unresolved change
  units.
\<close>

theorem resolveOne_idempotent:
  "(List.find (\<lambda>c. id_c c = Some i) (diffChanges st) = None \<longrightarrow> resolveOne d i e st = st)
   \<and> (\<forall>c. List.find (\<lambda>c. id_c c = Some i) (diffChanges st) = Some c \<and> resolved c
          \<longrightarrow> resolveOne d i e st = st)
   \<and> resolveOne d2 i e2 (resolveOne d1 i e1 st) = resolveOne d1 i e1 st
   \<and> map (\<lambda>c. (accepted c, rejected c)) (diffChanges (resolveOne d2 i e2 (resolveOne d1 i e1 st)))
       = map (\<lambda>c. (accepted c, rejected c)) (diffChanges (resolveOne d1 i e1 st))
   \<and> length (unresolvedChanges (resolveOne d2 i e2 (resolveOne d1 i e1 st)))
       = length (unresolvedChanges (resolveOne d1 i e1 st))"
  by (simp add: resolveOne_unknown resolveOne_resolved resolveOne_twice)

theorem resolveOne_idempotent_witness:
  "resolveOne Accept 5 True review_state = review_state
   \<and> resolveOne Accept 0 True (resolveOne Reject 0 True review_state)
       = resolveOne Reject 0 True review_state
   \<and> map (\<lambda>c. (accepted c, rejected c)) (diffChanges (resolveOne Reject 0 True review_state))
       = [(False, True), (False, False), (False, False)]
   \<and> map (\<lambda>c. (accepted c, rejected c))
        (diffChanges (resolveOne Accept 0 True (resolveOne Reject 0 True review_state)))
       = [(False, True), (False, False), (False, False)]"
proof -
  have none: "List.find (\<lambda>c. id_c c = Some 5) (diffChanges review_state) = None"
    by (simp add: review_state_def two_changes_def new_unit_def)
  have flags: "map (\<lambda>c. (accepted c, rejected c)) (diffChanges (resolveOne Reject 0 True review_state))
       = [(False, True), (False, False), (False, False)]"
    by (simp add: review_state_def two_changes_def new_unit_def resolveOne_def
        rejectSingleChange_def checkAllChangesResolved_def unresolvedChanges_def)
  from none flags
    resolveOne_idempotent [of 5 review_state Accept True Accept True Reject]
    resolveOne_idempotent [of 0 review_state Accept True Accept True Reject]
  show ?thesis by simp
qed

section \<open>The parts of a word diff are not empty\<close>

lemma tokenize_nonempty: "[] \<notin> set (tokenize s)"
  by (induction s rule: tokenize.induct) auto

lemma getWordChar_keys:
  "getWordChar t st = (ch, st') \<Longrightarrow> fst ` set (fst st') \<subseteq> fst ` set (fst st) \<union> {t}"
  by (cases st) (auto simp add: getWordChar_def split: option.splits)

lemma mapGetWordChar_keys:
  "mapGetWordChar ts st = (chs, st') \<Longrightarrow> fst ` set (fst st') \<subseteq> fst ` set (fst st) \<union> set ts"
proof (induction ts arbitrary: st chs st')
  case Nil
  then show ?case by simp
next
  case (Cons t ts)
  obtain ch st1 where g: "getWordChar t st = (ch, st1)" by (cases "getWordChar t st")
  obtain chs1 st2 where m: "mapGetWordChar ts st1 = (chs1, st2)" by (cases "mapGetWordChar ts st1")
  from Cons.prems g m have "st' = st2" by simp
  with Cons.IH [OF m] getWordChar_keys [OF g] show ?case by auto
qed

lemma fold_reverse_ran:
  "fold (\<lambda>(word, ch) m. m(ch \<mapsto> word)) wm m0 c = Some w \<Longrightarrow> w \<in> fst ` set wm \<or> m0 c = Some w"
proof (induction wm arbitrary: m0)
  case Nil
  then show ?case by simp
next
  case (Cons e wm)
  obtain word ch where e: "e = (word, ch)" by (cases e)
  from Cons.prems have "fold (\<lambda>(word, ch) m. m(ch \<mapsto> word)) wm (m0(ch \<mapsto> word)) c = Some w"
    unfolding e by (simp del: fun_upd_apply)
  from Cons.IH [OF this] show ?case by (auto simp add: e split: if_splits)
qed

lemma buildReverseMap_ran: "buildReverseMap wm c = Some w \<Longrightarrow> w \<in> fst ` set wm"
  using fold_reverse_ran [of wm Map.empty c w] by (simp add: buildReverseMap_def)

lemma expandDiffs_texts:
  "p \<in> set (expandDiffs rm cds) \<Longrightarrow> \<exists>c. rm c = Some (text_d p)"
  by (auto simp add: expandDiffs_def expandChunk_def split: option.splits prod.splits)

lemma mergeStep_made_of:
  assumes "\<forall>p\<in>set acc. made_of T p" and "made_of T item"
  shows "\<forall>p\<in>set (mergeStep item acc). made_of T p"
proof (cases "acc \<noteq> [] \<and> type_d (last acc) = type_d item")
  case False
  with assms show ?thesis by (auto simp add: mergeStep_def)
next
  case True
  then have "last acc \<in> set acc" by simp
  with assms(1) obtain ws1 where ws1: "ws1 \<noteq> []" "set ws1 \<subseteq> T" "text_d (last acc) = concat ws1"
    by (auto simp add: made_of_def)
  from assms(2) obtain ws2 where ws2: "ws2 \<noteq> []" "set ws2 \<subseteq> T" "text_d item = concat ws2"
    by (auto simp add: made_of_def)
  have "made_of T ((last acc)\<lparr>text_d := text_d (last acc) @ text_d item\<rparr>)"
    unfolding made_of_def using ws1 ws2 by (intro exI [of _ "ws1 @ ws2"]) simp
  moreover have "\<forall>p\<in>set (butlast acc). made_of T p"
    using assms(1) by (meson in_set_butlastD)
  ultimately show ?thesis using True by (auto simp add: mergeStep_def)
qed

lemma fold_mergeStep_made_of:
  "\<forall>p\<in>set acc. made_of T p \<Longrightarrow> \<forall>p\<in>set items. made_of T p
     \<Longrightarrow> \<forall>p\<in>set (fold mergeStep items acc). made_of T p"
proof (induction items arbitrary: acc)
  case Nil
  then show ?case by simp
next
  case (Cons item items)
  have "\<forall>p\<in>set (mergeStep item acc). made_of T p"
    using Cons.prems by (intro mergeStep_made_of) auto
  with Cons.IH [of "mergeStep item acc"] Cons.prems(2) show ?case by simp
qed

lemma computeWordDiff_made_of:
  "\<forall>p\<in>set (computeWordDiff dmp a b). made_of (set (tokenize a) \<union> set (tokenize b)) p"
proof -
  obtain c1 st1 where m1: "mapGetWordChar (tokenize a) initial_word_state = (c1, st1)"
    by (cases "mapGetWordChar (tokenize a) initial_word_state")
  obtain c2 st2 where m2: "mapGetWordChar (tokenize b) st1 = (c2, st2)"
    by (cases "mapGetWordChar (tokenize b) st1")
  have "fst ` set (fst st1) \<subseteq> set (tokenize a)"
    using mapGetWordChar_keys [OF m1] by (simp add: initial_word_state_def)
  with mapGetWordChar_keys [OF m2]
  have keys: "fst ` set (fst st2) \<subseteq> set (tokenize a) \<union> set (tokenize b)"
    by blast
  have "\<forall>p\<in>set (expandDiffs (buildReverseMap (fst st2)) (dmp (concat c1) (concat c2))).
          made_of (set (tokenize a) \<union> set (tokenize b)) p"
  proof
    fix p assume "p \<in> set (expandDiffs (buildReverseMap (fst st2)) (dmp (concat c1) (concat c2)))"
    then obtain c where "buildReverseMap (fst st2) c = Some (text_d p)"
      using expandDiffs_texts by blast
    then have "text_d p \<in> fst ` set (fst st2)" by (rule buildReverseMap_ran)
    with keys have "text_d p \<in> set (tokenize a) \<union> set (tokenize b)" by blast
    then show "made_of (set (tokenize a) \<union> set (tokenize b)) p"
      unfolding made_of_def by (intro exI [of _ "[text_d p]"]) simp
  qed
  then have "\<forall>p\<in>set (mergeParts (expandDiffs (buildReverseMap (fst st2)) (dmp (concat c1) (concat c2)))).
          made_of (set (tokenize a) \<union> set (tokenize b)) p"
    unfolding mergeParts_def by (intro fold_mergeStep_made_of) simp_all
  then show ?thesis by (simp add: computeWordDiff_def m1 m2 Let_def)
qed

lemma made_of_nonempty:
  assumes "[] \<notin> T" and "made_of T p"
  shows "text_d p \<noteq> []"
proof -
  from assms(2) obtain ws where ws: "ws \<noteq> []" "set ws \<subseteq> T" "text_d p = concat ws"
    by (auto simp add: made_of_def)
  then obtain w where "w \<in> set ws" by (cases ws) auto
  with ws(2) assms(1) have "w \<in> set ws" "w \<noteq> []" by auto
  with ws(3) show ?thesis by auto
qed

text \<open>
  Claim C9.  Whatever the diff engine returns, no part of the result of \<open>computeWordDiff\<close>
  has the empty string as text: the text of every part is the concatenation of one or
  more tokens of the two inputs, and no token is empty.
\<close>

theorem computeWordDiff_parts_nonempty:
  "[] \<notin> set (map text_d (computeWordDiff dmp a b))
   \<and> (\<forall>p\<in>set (computeWordDiff dmp a b).
        \<exists>ws. ws \<noteq> [] \<and> [] \<notin> set ws \<and> set ws \<subseteq> set (tokenize a) \<union> set (tokenize b)
             \<and> text_d p = concat ws)"
proof
  have T: "[] \<notin> set (tokenize a) \<union> set (tokenize b)"
    using tokenize_nonempty by simp
  show "[] \<notin> set (map text_d (computeWordDiff dmp a b))"
  proof
    assume "[] \<in> set (map text_d (computeWordDiff dmp a b))"
    then obtain p where "p \<in> set (computeWordDiff dmp a b)" and "text_d p = []" by auto
    with computeWordDiff_made_of [of dmp a b] made_of_nonempty [OF T, of p] show False by blast
  qed
  show "\<forall>p\<in>set (computeWordDiff dmp a b).
        \<exists>ws. ws \<noteq> [] \<and> [] \<notin> set ws \<and> set ws \<subseteq> set (tokenize a) \<union> set (tokenize b)
             \<and> text_d p = concat ws"
  proof
    fix p assume "p \<in> set (computeWordDiff dmp a b)"
    with computeWordDiff_made_of [of dmp a b] obtain ws where
      ws: "ws \<noteq> []" "set ws \<subseteq> set (tokenize a) \<union> set (tokenize b)" "text_d p = concat ws"
      by (auto simp add: made_of_def)
    with T have "[] \<notin> set ws" by blast
    with ws show "\<exists>ws. ws \<noteq> [] \<and> [] \<notin> set ws \<and> set ws \<subseteq> set (tokenize a) \<union> set (tokenize b)
             \<and> text_d p = concat ws" by blast
  qed
qed

theorem computeWordDiff_parts_nonempty_witness:
  "computeWordDiff coarse_diff (js ''hello world'') (js ''hello  there'')
     = [\<lparr>type_d = DIFF_DELETE, text_d = js ''hello world''\<rparr>,
        \<lparr>type_d = DIFF_INSERT, text_d = js ''hello  there''\<rparr>]
   \<and> [] \<notin> set (map text_d (computeWordDiff coarse_diff (js ''hello world'') (js ''hello  there'')))"
proof
  show "computeWordDiff coarse_diff (js ''hello world'') (js ''hello  there'')
     = [\<lparr>type_d = DIFF_DELETE, text_d = js ''hello world''\<rparr>,
        \<lparr>type_d = DIFF_INSERT, text_d = js ''hello  there''\<rparr>]"
    by (simp add: word_diff_eval)
  show "[] \<notin> set (map text_d (computeWordDiff coarse_diff (js ''hello world'') (js ''hello  there'')))"
    using computeWordDiff_parts_nonempty [of coarse_diff "js ''hello world''" "js ''hello  there''"]
    by blast
qed

section \<open>Texts in which the expressions do not match\<close>

lemma findFirst_Some:
  "findFirst lit s = Some (b, r) \<Longrightarrow> s = b @ lit @ r"
proof (induction s arbitrary: b r)
  case Nil
  then show ?case by (simp split: if_splits)
next
  case (Cons c cs)
  show ?case
  proof (cases "stripPrefix lit (c # cs)")
    case (Some rest)
    with Cons.prems show ?thesis by (simp add: stripPrefix_iff)
  next
    case None
    with Cons.prems obtain b1 where "findFirst lit cs = Some (b1, r)" and "b = c # b1"
      by (auto split: option.splits)
    with Cons.IH show ?thesis by simp
  qed
qed

lemma matchAt_Some:
  assumes "matchAt re s = Some (ds, content, rest)"
  shows "s = re_open re @ ds @ re_id_end re @ content @ re_close re @ rest"
proof -
  from assms obtain s1 s2 where
    s1: "stripPrefix (re_open re) s = Some s1" and
    ds: "ds = takeWhile isDigit s1" and
    s2: "stripPrefix (re_id_end re) (dropWhile isDigit s1) = Some s2" and
    ff: "findFirst (re_close re) s2 = Some (content, rest)"
    by (auto simp add: matchAt_def split: option.splits if_splits)
  have "s1 = ds @ dropWhile isDigit s1" by (simp add: ds)
  with s1 s2 findFirst_Some [OF ff] show ?thesis
    by (metis stripPrefix_iff)
qed

lemma matchAt_needs_open: "matchAt re s \<noteq> None \<Longrightarrow> prefix (re_open re) s"
  by (auto simp add: matchAt_def stripPrefix_iff split: option.splits)

lemma matchAt_needs_close: "matchAt re s \<noteq> None \<Longrightarrow> sublist (re_close re) s"
proof -
  assume "matchAt re s \<noteq> None"
  then obtain ds content rest where "matchAt re s = Some (ds, content, rest)" by auto
  from matchAt_Some [OF this]
  have "s = (re_open re @ ds @ re_id_end re @ content) @ re_close re @ rest" by simp
  then show ?thesis unfolding sublist_def by blast
qed

lemma replaceAll_no_match:
  "(\<And>s. suffix s t \<Longrightarrow> matchAt re s = None) \<Longrightarrow> replaceAll re t = t"
proof (induction t)
  case Nil
  then show ?case by simp
next
  case (Cons c cs)
  have "matchAt re (c # cs) = None" by (rule Cons.prems) simp
  moreover have "replaceAll re cs = cs"
    by (rule Cons.IH) (simp add: Cons.prems suffix_Cons)
  ultimately show ?case by simp
qed

lemma replaceAll_no_close: "\<not> sublist (re_close re) t \<Longrightarrow> replaceAll re t = t"
proof (rule replaceAll_no_match)
  fix s assume "\<not> sublist (re_close re) t" and "suffix s t"
  then have "\<not> sublist (re_close re) s"
    by (meson sublist_order.order.trans suffix_imp_sublist)
  with matchAt_needs_close show "matchAt re s = None" by blast
qed

lemma replaceAll_no_open: "\<not> sublist (re_open re) t \<Longrightarrow> replaceAll re t = t"
proof (rule replaceAll_no_match)
  fix s assume "\<not> sublist (re_open re) t" and "suffix s t"
  then have "\<not> sublist (re_open re) s"
    by (meson sublist_order.order.trans suffix_imp_sublist)
  then have "\<not> prefix (re_open re) s" by (meson prefix_imp_sublist)
  with matchAt_needs_open show "matchAt re s = None" by blast
qed

text \<open>
  A text in which the regular expressions match nowhere is returned exactly as given; in
  particular a text with no closing marker and a text with no opening marker.
\<close>

lemma no_match_unchanged:
  "(\<forall>s. suffix s t \<longrightarrow> matchAt del_marker s = None \<and> matchAt ins_marker s = None)
     \<Longrightarrow> markersToPlaceholders t = t"
  by (simp add: markersToPlaceholders_def replaceAll_no_match)

lemma no_close_unchanged:
  "\<not> sublist (re_close del_marker) t \<Longrightarrow> \<not> sublist (re_close ins_marker) t
     \<Longrightarrow> markersToPlaceholders t = t"
  by (simp add: markersToPlaceholders_def replaceAll_no_close)

lemma no_open_unchanged:
  "\<not> sublist (re_open del_marker) t \<Longrightarrow> \<not> sublist (re_open ins_marker) t
     \<Longrightarrow> markersToPlaceholders t = t"
  by (simp add: markersToPlaceholders_def replaceAll_no_open)

lemma all_suffixes: "(\<forall>s. suffix s t \<longrightarrow> P s) \<longleftrightarrow> list_all P (suffixes t)"
  by (auto simp add: list_all_iff)

section \<open>The round trip through markers\<close>

lemma stripPrefix_append: "stripPrefix p (p @ r) = Some r"
  by (simp add: stripPrefix_iff)

lemma findFirst_here: "findFirst lit (lit @ r) = Some ([], r)"
proof (cases "lit @ r")
  case Nil
  then show ?thesis by simp
next
  case (Cons a list)
  then have "stripPrefix lit (a # list) = Some r" by (simp add: stripPrefix_iff)
  then show ?thesis by (simp add: Cons)
qed

lemma findFirst_skip:
  assumes "\<And>s. suffix s t \<Longrightarrow> s \<noteq> [] \<Longrightarrow> \<not> prefix lit (s @ lit @ r)"
  shows "findFirst lit (t @ lit @ r) = Some (t, r)"
  using assms
proof (induction t)
  case Nil
  then show ?case by (simp add: findFirst_here)
next
  case (Cons c cs)
  have "\<not> prefix lit ((c # cs) @ lit @ r)" by (rule Cons.prems) simp_all
  then have "stripPrefix lit (c # cs @ lit @ r) = None" by (simp add: stripPrefix_None_iff)
  moreover have "findFirst lit (cs @ lit @ r) = Some (cs, r)"
    by (rule Cons.IH) (simp add: Cons.prems suffix_Cons)
  ultimately show ?case by simp
qed

lemma prefix_first_char:
  assumes "prefix lit (s @ r)" and "s \<noteq> []" and "lit \<noteq> []"
  shows "hd lit = hd s"
  using assms by (cases lit; cases s) auto

lemma findFirst_char:
  assumes "lit \<noteq> []" and "hd lit \<notin> set t"
  shows "findFirst lit (t @ lit @ r) = Some (t, r)"
proof (rule findFirst_skip)
  fix s assume s: "suffix s t" "s \<noteq> []"
  then have "hd s \<in> set t" by (metis hd_in_set set_mono_suffix subsetD)
  with assms(2) have "hd lit \<noteq> hd s" by auto
  with prefix_first_char [OF _ s(2) assms(1)] show "\<not> prefix lit (s @ lit @ r)" by blast
qed

lemma straddle:
  assumes "prefix lit (s @ r)" and "\<not> prefix lit s" and "s \<noteq> []"
  shows "r \<noteq> [] \<and> hd r \<in> set (tl lit)"
proof -
  from assms(1) obtain z where z: "s @ r = lit @ z" by (auto simp add: prefix_def)
  then consider us where "s = lit @ us" | us where "s @ us = lit" "r = us @ z"
    by (auto simp add: append_eq_append_conv2)
  then show ?thesis
  proof cases
    case 1
    with assms(2) show ?thesis by simp
  next
    case 2
    with assms(2) have "us \<noteq> []" by auto
    moreover from 2 assms(3) \<open>us \<noteq> []\<close> have "hd us \<in> set (tl lit)"
      by (cases s; cases us) auto
    ultimately show ?thesis using 2 by (cases us) auto
  qed
qed

lemma findFirst_sub:
  assumes "lit \<noteq> []" and "hd lit \<notin> set (tl lit)" and "\<not> sublist lit t"
  shows "findFirst lit (t @ lit @ r) = Some (t, r)"
proof (rule findFirst_skip)
  fix s assume s: "suffix s t" "s \<noteq> []"
  show "\<not> prefix lit (s @ lit @ r)"
  proof
    assume p: "prefix lit (s @ lit @ r)"
    have "\<not> prefix lit s"
      using assms(3) s(1) by (meson prefix_imp_sublist sublist_order.order.trans suffix_imp_sublist)
    from straddle [OF p this s(2)] have "hd (lit @ r) \<in> set (tl lit)" by simp
    with assms(1,2) show False by simp
  qed
qed

lemma replaceAll_skip:
  assumes "\<And>s. suffix s p \<Longrightarrow> s \<noteq> [] \<Longrightarrow> matchAt re (s @ r) = None"
  shows "replaceAll re (p @ r) = p @ replaceAll re r"
  using assms
proof (induction p)
  case Nil
  then show ?case by simp
next
  case (Cons c cs)
  have "matchAt re ((c # cs) @ r) = None" by (rule Cons.prems) simp_all
  moreover have "replaceAll re (cs @ r) = cs @ replaceAll re r"
    by (rule Cons.IH) (simp add: Cons.prems suffix_Cons)
  ultimately show ?case by simp
qed

lemma replaceAll_skip_char:
  assumes "re_open re \<noteq> []" and "hd (re_open re) \<notin> set p"
  shows "replaceAll re (p @ r) = p @ replaceAll re r"
proof (rule replaceAll_skip)
  fix s assume s: "suffix s p" "s \<noteq> []"
  then have "hd s \<in> set p" by (metis hd_in_set set_mono_suffix subsetD)
  with assms(2) have "hd (re_open re) \<noteq> hd s" by auto
  with prefix_first_char [OF _ s(2) assms(1)] have "\<not> prefix (re_open re) (s @ r)" by blast
  with matchAt_needs_open show "matchAt re (s @ r) = None" by blast
qed

lemma replaceAll_skip_sub:
  assumes "\<not> sublist (re_open re) p" and "r = [] \<or> hd r \<notin> set (tl (re_open re))"
  shows "replaceAll re (p @ r) = p @ replaceAll re r"
proof (rule replaceAll_skip)
  fix s assume s: "suffix s p" "s \<noteq> []"
  have np: "\<not> prefix (re_open re) s"
    using assms(1) s(1) by (meson prefix_imp_sublist sublist_order.order.trans suffix_imp_sublist)
  have "\<not> prefix (re_open re) (s @ r)"
  proof
    assume "prefix (re_open re) (s @ r)"
    from straddle [OF this np s(2)] assms(2) show False by simp
  qed
  with matchAt_needs_open show "matchAt re (s @ r) = None" by blast
qed

lemma replaceAll_skip_tag:
  assumes "re_open re \<noteq> []" and "hd (re_open re) \<notin> set xs"
    and "\<not> prefix (re_open re) (x # xs @ r)"
  shows "replaceAll re (x # xs @ r) = x # xs @ replaceAll re r"
proof -
  have "matchAt re (x # xs @ r) = None"
    using assms(3) matchAt_needs_open by blast
  then have "replaceAll re (x # xs @ r) = x # replaceAll re (xs @ r)" by simp
  with replaceAll_skip_char [OF assms(1,2)] show ?thesis by simp
qed

lemma takeWhile_digits:
  assumes "\<forall>d\<in>set ds. isDigit d" and "r = [] \<or> \<not> isDigit (hd r)"
  shows "takeWhile isDigit (ds @ r) = ds \<and> dropWhile isDigit (ds @ r) = r"
  using assms by (cases r) (auto simp add: takeWhile_append1 takeWhile_append2 dropWhile_append2 dropWhile_append1)

lemma matchAt_found:
  assumes "ds \<noteq> []" and "\<forall>d\<in>set ds. isDigit d"
    and "re_id_end re \<noteq> []" and "\<not> isDigit (hd (re_id_end re))"
    and "findFirst (re_close re) (t @ re_close re @ r) = Some (t, r)"
  shows "matchAt re (re_open re @ ds @ re_id_end re @ t @ re_close re @ r) = Some (ds, t, r)"
proof -
  have "takeWhile isDigit (ds @ re_id_end re @ t @ re_close re @ r) = ds
      \<and> dropWhile isDigit (ds @ re_id_end re @ t @ re_close re @ r) = re_id_end re @ t @ re_close re @ r"
    using assms(2,3,4) by (intro takeWhile_digits) simp_all
  with assms(1,5) show ?thesis
    by (simp add: matchAt_def stripPrefix_append)
qed

lemma replaceAll_found:
  assumes "ds \<noteq> []" and "\<forall>d\<in>set ds. isDigit d"
    and "re_open re \<noteq> []"
    and "re_id_end re \<noteq> []" and "\<not> isDigit (hd (re_id_end re))"
    and "findFirst (re_close re) (t @ re_close re @ r) = Some (t, r)"
  shows "replaceAll re (re_open re @ ds @ re_id_end re @ t @ re_close re @ r)
         = out_start re @ ds @ out_middle re @ t @ out_end re @ replaceAll re r"
proof -
  obtain c cs where c: "re_open re @ ds @ re_id_end re @ t @ re_close re @ r = c # cs"
    using assms(3) by (cases "re_open re") auto
  from matchAt_found [OF assms(1,2,4,5,6)] show ?thesis
    unfolding c by simp
qed

lemma decimal_digits: "\<forall>d\<in>set (decimal n). isDigit d"
proof (induction n rule: decimal.induct)
  case (1 n)
  have small: "\<And>k::nat. k < 10 \<Longrightarrow> isDigit (word_of_nat (48 + k))"
  proof -
    fix k :: nat assume "k < 10"
    then have "k \<in> {0,1,2,3,4,5,6,7,8,9}" by auto
    then show "isDigit (word_of_nat (48 + k))" by (auto simp add: isDigit_def)
  qed
  show ?case
  proof (cases "n < 10")
    case True
    then show ?thesis using small [of n] by (subst decimal.simps) simp
  next
    case False
    then show ?thesis using 1 small [of "n mod 10"] by (subst decimal.simps) simp
  qed
qed

lemma decimal_nonempty: "decimal n \<noteq> []"
  by (subst decimal.simps) simp

lemma digit_not_NUL: "isDigit d \<Longrightarrow> d \<noteq> NUL"
  by (auto simp add: isDigit_def NUL_def)

lemma digit_not_lt: "isDigit d \<Longrightarrow> d \<noteq> 0x3C"
  by (auto simp add: isDigit_def)

lemma decimal_no_NUL: "NUL \<notin> set (decimal n)"
  using decimal_digits digit_not_NUL by blast

lemma decimal_no_lt: "0x3C \<notin> set (decimal n)"
  using decimal_digits digit_not_lt by blast

lemma matchAt_digits:
  "matchAt re s = Some (ds, c, r) \<Longrightarrow> ds \<noteq> [] \<and> (\<forall>d\<in>set ds. isDigit d)"
  by (auto simp add: matchAt_def split: option.splits if_splits dest: set_takeWhileD)

lemma split_at_NUL:
  assumes "NUL \<notin> set a" and "NUL \<notin> set b" and "a @ NUL # x = b @ NUL # y"
  shows "a = b"
proof -
  have "takeWhile (\<lambda>c. c \<noteq> NUL) (a @ NUL # x) = a"
    using assms(1) by (auto simp add: takeWhile_tail)
  moreover have "takeWhile (\<lambda>c. c \<noteq> NUL) (b @ NUL # y) = b"
    using assms(2) by (auto simp add: takeWhile_tail)
  ultimately show ?thesis using assms(3) by simp
qed

lemma del_like_intro:
  "ds \<noteq> [] \<Longrightarrow> \<forall>d\<in>set ds. isDigit d \<Longrightarrow> del_like (js ''DEL'' @ ds)"
  by (simp add: del_like_def js_def list_all_iff)

lemma calm_quiet:
  assumes "calm r"
  shows "matchAt del_marker (NUL # r) = None"
proof (rule ccontr)
  assume "matchAt del_marker (NUL # r) \<noteq> None"
  then obtain ds c rest where m: "matchAt del_marker (NUL # r) = Some (ds, c, rest)" by auto
  from matchAt_digits [OF m] have ds: "ds \<noteq> []" "\<forall>d\<in>set ds. isDigit d" by auto
  from matchAt_Some [OF m]
  have r: "r = (js ''DEL'' @ ds) @ NUL # (c @ re_close del_marker @ rest)"
    by (simp add: del_marker_def)
  have nn: "NUL \<notin> set (js ''DEL'' @ ds)"
    using ds(2) digit_not_NUL by (auto simp add: js_def NUL_def)
  from assms obtain t r' where t: "r = t @ r'" "NUL \<notin> set t" "\<not> del_like t" "r' = [] \<or> hd r' = NUL"
    by (auto simp add: calm_def)
  show False
  proof (cases r')
    case Nil
    with t r have "NUL \<in> set t" by (metis append_Nil2 in_set_conv_decomp)
    with t(2) show False by simp
  next
    case (Cons x r'')
    with t(4) have "x = NUL" by simp
    with Cons t(1) r have "t @ NUL # r'' = (js ''DEL'' @ ds) @ NUL # (c @ re_close del_marker @ rest)"
      by simp
    from split_at_NUL [OF t(2) nn this] have "t = js ''DEL'' @ ds" .
    with del_like_intro [OF ds] t(3) show False by simp
  qed
qed

lemma calm_Nil: "calm []"
  by (simp add: calm_def del_like_def)

lemma calm_NUL: "calm (NUL # r)"
  unfolding calm_def by (rule exI [of _ "[]"], rule exI [of _ "NUL # r"]) (simp add: del_like_def)

lemma calm_text: "NUL \<notin> set t \<Longrightarrow> \<not> del_like t \<Longrightarrow> r = [] \<or> hd r = NUL \<Longrightarrow> calm (t @ r)"
  unfolding calm_def by blast

lemma clean_no_NUL: "clean_text t \<Longrightarrow> NUL \<notin> set t"
  by (simp add: clean_text_def)

lemma clean_fragments:
  assumes "clean_text t"
  shows "\<not> sublist (re_open del_placeholder) t" and "\<not> sublist (re_close del_placeholder) t"
    and "\<not> sublist (re_open ins_placeholder) t" and "\<not> sublist (re_close ins_placeholder) t"
  using assms
  by (simp_all add: clean_text_def placeholder_fragments_def del_placeholder_def ins_placeholder_def)

lemma step_no_match: "matchAt re (c # cs) = None \<Longrightarrow> replaceAll re (c # cs) = c # replaceAll re cs"
  by simp

lemma del_marker_open: "re_open del_marker \<noteq> []" "hd (re_open del_marker) = NUL"
  by (simp_all add: del_marker_def)

lemma ins_marker_open: "re_open ins_marker \<noteq> []" "hd (re_open ins_marker) = NUL"
  by (simp_all add: ins_marker_def)

lemma marker_id_end:
  "re_id_end del_marker \<noteq> []" "\<not> isDigit (hd (re_id_end del_marker))"
  "re_id_end ins_marker \<noteq> []" "\<not> isDigit (hd (re_id_end ins_marker))"
  by (simp_all add: del_marker_def ins_marker_def isDigit_def NUL_def)

lemma marker_close:
  "re_close del_marker \<noteq> []" "hd (re_close del_marker) = NUL"
  "re_close ins_marker \<noteq> []" "hd (re_close ins_marker) = NUL"
  by (simp_all add: del_marker_def ins_marker_def)

lemma found_by_char:
  assumes "re_open re \<noteq> []" and "re_id_end re \<noteq> []" and "\<not> isDigit (hd (re_id_end re))"
    and "re_close re \<noteq> []" and "hd (re_close re) \<notin> set t"
  shows "replaceAll re (src re i t @ r) = dst re i t @ replaceAll re r"
  using replaceAll_found [of "decimal i" re t r, OF decimal_nonempty decimal_digits assms(1,2,3)
      findFirst_char [OF assms(4,5)]]
  by (simp add: src_def dst_def)

lemma found_by_sub:
  assumes "re_open re \<noteq> []" and "re_id_end re \<noteq> []" and "\<not> isDigit (hd (re_id_end re))"
    and "re_close re \<noteq> []" and "hd (re_close re) \<notin> set (tl (re_close re))"
    and "\<not> sublist (re_close re) t"
  shows "replaceAll re (src re i t @ r) = dst re i t @ replaceAll re r"
  using replaceAll_found [of "decimal i" re t r, OF decimal_nonempty decimal_digits assms(1,2,3)
      findFirst_sub [OF assms(4,5,6)]]
  by (simp add: src_def dst_def)

lemma pass1_insert:
  assumes "NUL \<notin> set t" and "\<not> del_like t" and "calm r"
  shows "replaceAll del_marker (src ins_marker i t @ r) = src ins_marker i t @ replaceAll del_marker r"
proof -
  let ?r3 = "NUL # r"
  let ?r2 = "NUL # js ''/INS'' @ ?r3"
  let ?r1 = "NUL # t @ ?r2"
  have whole: "src ins_marker i t @ r = NUL # (js ''INS'' @ decimal i) @ ?r1"
    by (simp add: src_def ins_marker_def)
  have a: "replaceAll del_marker (NUL # (js ''INS'' @ decimal i) @ ?r1)
           = NUL # (js ''INS'' @ decimal i) @ replaceAll del_marker ?r1"
  proof (rule replaceAll_skip_tag)
    show "re_open del_marker \<noteq> []" by (rule del_marker_open)
    show "hd (re_open del_marker) \<notin> set (js ''INS'' @ decimal i)"
      using decimal_no_NUL [of i] by (simp add: del_marker_open) (simp add: js_def NUL_def)
    show "\<not> prefix (re_open del_marker) (NUL # (js ''INS'' @ decimal i) @ ?r1)"
      by (simp add: del_marker_def js_def)
  qed
  have "calm (t @ ?r2)" using assms(1,2) by (intro calm_text) simp_all
  then have b1: "replaceAll del_marker ?r1 = NUL # replaceAll del_marker (t @ ?r2)"
    by (intro step_no_match calm_quiet)
  have b2: "replaceAll del_marker (t @ ?r2) = t @ replaceAll del_marker ?r2"
    using assms(1) by (intro replaceAll_skip_char) (simp_all add: del_marker_open)
  have c: "replaceAll del_marker (NUL # js ''/INS'' @ ?r3) = NUL # js ''/INS'' @ replaceAll del_marker ?r3"
  proof (rule replaceAll_skip_tag)
    show "re_open del_marker \<noteq> []" by (rule del_marker_open)
    show "hd (re_open del_marker) \<notin> set (js ''/INS'')"
      by (simp add: del_marker_open) (simp add: js_def NUL_def)
    show "\<not> prefix (re_open del_marker) (NUL # js ''/INS'' @ ?r3)"
      by (simp add: del_marker_def js_def)
  qed
  have d: "replaceAll del_marker ?r3 = NUL # replaceAll del_marker r"
    using assms(3) by (intro step_no_match calm_quiet)
  show ?thesis
    unfolding whole a b1 b2 c d by (simp add: src_def ins_marker_def)
qed

lemma pass1_part:
  assumes "part_ok p" and "calm r"
  shows "replaceAll del_marker (part_form (src del_marker) (src ins_marker) i p @ r)
         = part_form (dst del_marker) (src ins_marker) i p @ replaceAll del_marker r"
proof (cases "type_d p")
  case DIFF_DELETE
  with assms(1) have "NUL \<notin> set (text_d p)" by (simp add: part_ok_def clean_no_NUL)
  then show ?thesis
    using DIFF_DELETE
    by (simp add: part_form_def found_by_char del_marker_open marker_id_end marker_close)
next
  case DIFF_EQUAL
  then show ?thesis by (simp add: part_form_def)
next
  case DIFF_INSERT
  with assms(1) have "NUL \<notin> set (text_d p)" "\<not> del_like (text_d p)"
    by (simp_all add: part_ok_def clean_no_NUL)
  then show ?thesis
    using DIFF_INSERT assms(2) by (simp add: part_form_def pass1_insert)
qed

lemma part_form_head:
  assumes "\<And>i t. hd (del i t) = c \<and> del i t \<noteq> []" and "\<And>i t. hd (ins i t) = c \<and> ins i t \<noteq> []"
  shows "concat (map (part_form del ins i) ps) = [] \<or> hd (concat (map (part_form del ins i) ps)) = c"
proof (induction ps)
  case Nil
  then show ?case by simp
next
  case (Cons p ps)
  show ?case
  proof (cases "type_d p")
    case DIFF_EQUAL
    with Cons show ?thesis by (simp add: part_form_def)
  next
    case DIFF_DELETE
    with assms(1) [of i "text_d p"] show ?thesis by (simp add: part_form_def)
  next
    case DIFF_INSERT
    with assms(2) [of i "text_d p"] show ?thesis by (simp add: part_form_def)
  qed
qed

lemma part_form_head_shown:
  assumes "\<And>i t. hd (del i t) = c \<and> del i t \<noteq> []" and "\<And>i t. hd (ins i t) = c \<and> ins i t \<noteq> []"
    and "list_ex (\<lambda>p. type_d p \<noteq> DIFF_EQUAL) ps"
  shows "concat (map (part_form del ins i) ps) \<noteq> [] \<and> hd (concat (map (part_form del ins i) ps)) = c"
  using assms(3)
proof (induction ps)
  case Nil
  then show ?case by simp
next
  case (Cons p ps)
  show ?case
  proof (cases "type_d p")
    case DIFF_EQUAL
    with Cons show ?thesis by (simp add: part_form_def)
  next
    case DIFF_DELETE
    with assms(1) [of i "text_d p"] show ?thesis by (simp add: part_form_def)
  next
    case DIFF_INSERT
    with assms(2) [of i "text_d p"] show ?thesis by (simp add: part_form_def)
  qed
qed

lemma calm_append: "x = [] \<or> hd x = NUL \<Longrightarrow> calm r \<Longrightarrow> calm (x @ r)"
  by (cases x) (auto simp add: calm_NUL)

lemma src_marker_head:
  "hd (src del_marker i t) = NUL \<and> src del_marker i t \<noteq> []"
  "hd (src ins_marker i t) = NUL \<and> src ins_marker i t \<noteq> []"
  by (simp_all add: src_def del_marker_def ins_marker_def)

lemma doc_form_Cons: "doc_form d i (u # us) = unit_form d i u @ doc_form d i us"
  by (simp add: doc_form_def)

lemma doc_form_Nil: "doc_form d i [] = []"
  by (simp add: doc_form_def)

lemma unit_form_equal:
  "type_c u = equal \<Longrightarrow> parts u = p # ps \<Longrightarrow> unit_form d i u = text_d p"
  by (simp add: unit_form_def)

lemma unit_form_change:
  "type_c u = change \<Longrightarrow> id_c u = Some n \<Longrightarrow> unit_form d i u = concat (map (part_form d i n) (parts u))"
  by (simp add: unit_form_def)

lemma unit_ok_equal:
  assumes "unit_ok u" and "type_c u = equal"
  obtains p ps where "parts u = p # ps" and "clean_text (text_d p)" and "\<not> del_like (text_d p)"
  using assms by (cases "parts u") (auto simp add: unit_ok_def)

lemma unit_ok_change:
  assumes "unit_ok u" and "type_c u = change"
  obtains n where "id_c u = Some n" and "list_all part_ok (parts u)"
    and "list_ex (\<lambda>p. type_d p \<noteq> DIFF_EQUAL) (parts u)" and "n < 2 ^ 53"
  using assms by (cases "id_c u") (auto simp add: unit_ok_def)

lemma pass_parts:
  assumes part: "\<And>p i r. part_ok p \<Longrightarrow> ctx r \<Longrightarrow>
            replaceAll re (part_form d1 i1 i p @ r) = part_form d2 i2 i p @ replaceAll re r"
    and ctx_part: "\<And>p i r. ctx r \<Longrightarrow> ctx (part_form d1 i1 i p @ r)"
    and "list_all part_ok ps" and "ctx r"
  shows "replaceAll re (concat (map (part_form d1 i1 i) ps) @ r)
           = concat (map (part_form d2 i2 i) ps) @ replaceAll re r
         \<and> ctx (concat (map (part_form d1 i1 i) ps) @ r)"
  using assms(3)
proof (induction ps)
  case Nil
  then show ?case using assms(4) by simp
next
  case (Cons p ps)
  then have ih: "replaceAll re (concat (map (part_form d1 i1 i) ps) @ r)
           = concat (map (part_form d2 i2 i) ps) @ replaceAll re r"
    and c: "ctx (concat (map (part_form d1 i1 i) ps) @ r)" by simp_all
  from part [OF _ c, of p i] ctx_part [OF c, of i p] Cons.prems ih show ?case by simp
qed

lemma pass_doc:
  assumes part: "\<And>p i r. part_ok p \<Longrightarrow> ctx r \<Longrightarrow>
            replaceAll re (part_form d1 i1 i p @ r) = part_form d2 i2 i p @ replaceAll re r"
    and text_step: "\<And>t r. clean_text t \<Longrightarrow> \<not> del_like t \<Longrightarrow> tctx r \<Longrightarrow>
            replaceAll re (t @ r) = t @ replaceAll re r"
    and ctx_part: "\<And>p i r. ctx r \<Longrightarrow> ctx (part_form d1 i1 i p @ r)"
    and ctx_text: "\<And>t r. clean_text t \<Longrightarrow> \<not> del_like t \<Longrightarrow> tctx r \<Longrightarrow> ctx (t @ r)"
    and ctx_of_tctx: "\<And>r. tctx r \<Longrightarrow> ctx r"
    and tctx_nil: "tctx []"
    and tctx_change: "\<And>ps i r. list_ex (\<lambda>p. type_d p \<noteq> DIFF_EQUAL) ps \<Longrightarrow>
            tctx (concat (map (part_form d1 i1 i) ps) @ r)"
    and ok: "list_all unit_ok us" and sep: "no_adjacent_equal us"
  shows "replaceAll re (doc_form d1 i1 us) = doc_form d2 i2 us"
proof -
  have t_head: "tctx (doc_form d1 i1 vs)"
    if "list_all unit_ok vs" and "vs = [] \<or> type_c (hd vs) = change" for vs
  proof (cases vs)
    case Nil
    then show ?thesis by (simp add: doc_form_Nil tctx_nil)
  next
    case (Cons v vs')
    with that have v: "unit_ok v" "type_c v = change" by simp_all
    from unit_ok_change [OF v] obtain n where n: "id_c v = Some n"
      "list_ex (\<lambda>p. type_d p \<noteq> DIFF_EQUAL) (parts v)" by blast
    from tctx_change [OF n(2), of n "doc_form d1 i1 vs'"] show ?thesis
      by (simp add: Cons doc_form_Cons unit_form_change [OF v(2) n(1)])
  qed
  have after_equal: "tctx (doc_form d1 i1 vs)"
    if "list_all unit_ok (v # vs)" and "no_adjacent_equal (v # vs)" and "type_c v = equal" for v vs
  proof (rule t_head)
    show "list_all unit_ok vs" using that(1) by simp
    show "vs = [] \<or> type_c (hd vs) = change"
      using that(2,3) by (cases vs; cases "type_c (hd vs)") auto
  qed
  have c_all: "ctx (doc_form d1 i1 vs)"
    if "list_all unit_ok vs" and "no_adjacent_equal vs" for vs
  proof (cases vs)
    case Nil
    then show ?thesis by (simp add: doc_form_Nil tctx_nil ctx_of_tctx)
  next
    case (Cons v vs')
    show ?thesis
    proof (cases "type_c v")
      case change
      with that(1) Cons show ?thesis by (intro ctx_of_tctx t_head) simp_all
    next
      case equal
      from that(1) Cons have "unit_ok v" by simp
      from unit_ok_equal [OF this equal] obtain p ps where
        p: "parts v = p # ps" "clean_text (text_d p)" "\<not> del_like (text_d p)" by blast
      from after_equal [OF _ _ equal, of vs'] that Cons have "tctx (doc_form d1 i1 vs')" by simp
      from ctx_text [OF p(2,3) this] show ?thesis
        by (simp add: Cons doc_form_Cons unit_form_equal [OF equal p(1)])
    qed
  qed
  show ?thesis
    using ok sep
  proof (induction us)
    case Nil
    then show ?case by (simp add: doc_form_Nil)
  next
    case (Cons u us)
    have tail_sep: "no_adjacent_equal us" using Cons.prems(2) by (cases us) simp_all
    have tail_ok: "list_all unit_ok us" and u_ok: "unit_ok u" using Cons.prems(1) by simp_all
    have ih: "replaceAll re (doc_form d1 i1 us) = doc_form d2 i2 us"
      using Cons.IH [OF tail_ok tail_sep] .
    show ?case
    proof (cases "type_c u")
      case equal
      from unit_ok_equal [OF u_ok equal] obtain p ps where
        p: "parts u = p # ps" "clean_text (text_d p)" "\<not> del_like (text_d p)" by blast
      have "tctx (doc_form d1 i1 us)" using after_equal [OF Cons.prems equal] .
      from text_step [OF p(2,3) this] ih show ?thesis
        by (simp add: doc_form_Cons unit_form_equal [OF equal p(1)])
    next
      case change
      from unit_ok_change [OF u_ok change] obtain n where n: "id_c u = Some n"
        "list_all part_ok (parts u)" by blast
      have "ctx (doc_form d1 i1 us)" using c_all [OF tail_ok tail_sep] .
      from pass_parts [of ctx re d1 i1 d2 i2 "parts u" "doc_form d1 i1 us" n, OF part ctx_part n(2) this]
        ih
      show ?thesis
        by (simp add: doc_form_Cons unit_form_change [OF change n(1)])
    qed
  qed
qed

lemma tagged_parts:
  assumes "\<And>i t. hd (del i t) = c \<and> del i t \<noteq> []" and "\<And>i t. hd (ins i t) = c \<and> ins i t \<noteq> []"
    and "list_ex (\<lambda>p. type_d p \<noteq> DIFF_EQUAL) ps"
  shows "tagged c (concat (map (part_form del ins i) ps) @ r)"
  using part_form_head_shown [of del c ins ps i, OF assms] by (simp add: tagged_def)

subsection \<open>The four passes\<close>

lemma pass1:
  assumes "list_all unit_ok us" and "no_adjacent_equal us"
  shows "replaceAll del_marker (doc_form (src del_marker) (src ins_marker) us)
         = doc_form (dst del_marker) (src ins_marker) us"
proof (rule pass_doc [where ctx = calm and tctx = "tagged NUL", OF _ _ _ _ _ _ _ assms])
  show "replaceAll del_marker (part_form (src del_marker) (src ins_marker) i p @ r)
        = part_form (dst del_marker) (src ins_marker) i p @ replaceAll del_marker r"
    if "part_ok p" and "calm r" for p i r
    using that by (rule pass1_part)
  show "replaceAll del_marker (t @ r) = t @ replaceAll del_marker r"
    if "clean_text t" for t r
    using that by (intro replaceAll_skip_char) (simp_all add: del_marker_open clean_no_NUL)
  show "calm (part_form (src del_marker) (src ins_marker) i p @ r)" if "calm r" for p i r
    using part_form_head [of "src del_marker" NUL "src ins_marker" i "[p]"] src_marker_head that
    by (intro calm_append) auto
  show "calm (t @ r)" if "clean_text t" and "\<not> del_like t" and "tagged NUL r" for t r
    using that by (intro calm_text) (simp_all add: clean_no_NUL tagged_def)
  show "calm r" if "tagged NUL r" for r
    using that by (cases r) (auto simp add: tagged_def calm_Nil calm_NUL)
  show "tagged NUL []" by (simp add: tagged_def)
  show "tagged NUL (concat (map (part_form (src del_marker) (src ins_marker) i) ps) @ r)"
    if "list_ex (\<lambda>p. type_d p \<noteq> DIFF_EQUAL) ps" for ps i r
    using that src_marker_head by (intro tagged_parts) auto
qed

lemma no_NUL_del_tag: "NUL \<notin> set t \<Longrightarrow> NUL \<notin> set (dst del_marker i t)"
  using decimal_no_NUL [of i] by (simp add: dst_def del_marker_def) (simp add: js_def NUL_def)

lemma pass2_part:
  assumes "part_ok p"
  shows "replaceAll ins_marker (part_form (dst del_marker) (src ins_marker) i p @ r)
         = part_form (dst del_marker) (dst ins_marker) i p @ replaceAll ins_marker r"
proof (cases "type_d p")
  case DIFF_DELETE
  with assms have "NUL \<notin> set (text_d p)" by (simp add: part_ok_def clean_no_NUL)
  then have "replaceAll ins_marker (dst del_marker i (text_d p) @ r)
      = dst del_marker i (text_d p) @ replaceAll ins_marker r"
    by (intro replaceAll_skip_char) (simp_all add: ins_marker_open no_NUL_del_tag)
  with DIFF_DELETE show ?thesis by (simp add: part_form_def)
next
  case DIFF_EQUAL
  then show ?thesis by (simp add: part_form_def)
next
  case DIFF_INSERT
  with assms have "NUL \<notin> set (text_d p)" by (simp add: part_ok_def clean_no_NUL)
  then show ?thesis
    using DIFF_INSERT
    by (simp add: part_form_def found_by_char ins_marker_open marker_id_end marker_close)
qed

lemma pass2:
  assumes "list_all unit_ok us" and "no_adjacent_equal us"
  shows "replaceAll ins_marker (doc_form (dst del_marker) (src ins_marker) us)
         = doc_form (dst del_marker) (dst ins_marker) us"
proof (rule pass_doc [where ctx = "\<lambda>r. True" and tctx = "\<lambda>r. True", OF _ _ _ _ _ _ _ assms])
  show "replaceAll ins_marker (part_form (dst del_marker) (src ins_marker) i p @ r)
        = part_form (dst del_marker) (dst ins_marker) i p @ replaceAll ins_marker r"
    if "part_ok p" for p i r
    using that by (rule pass2_part)
  show "replaceAll ins_marker (t @ r) = t @ replaceAll ins_marker r"
    if "clean_text t" for t r
    using that by (intro replaceAll_skip_char) (simp_all add: ins_marker_open clean_no_NUL)
qed simp_all

lemma marker_out_is_placeholder:
  "dst del_marker = src del_placeholder" "dst ins_marker = src ins_placeholder"
  by (simp_all add: fun_eq_iff dst_def src_def del_marker_def ins_marker_def
      del_placeholder_def ins_placeholder_def)

lemma placeholder_open:
  "re_open del_placeholder \<noteq> []" "hd (re_open del_placeholder) = 0x3C"
  "0x3C \<notin> set (tl (re_open del_placeholder))"
  "re_open ins_placeholder \<noteq> []" "hd (re_open ins_placeholder) = 0x3C"
  "0x3C \<notin> set (tl (re_open ins_placeholder))"
  by (simp_all add: del_placeholder_def ins_placeholder_def js_def)

lemma placeholder_id_end:
  "re_id_end del_placeholder \<noteq> []" "\<not> isDigit (hd (re_id_end del_placeholder))"
  "re_id_end ins_placeholder \<noteq> []" "\<not> isDigit (hd (re_id_end ins_placeholder))"
  by (simp_all add: del_placeholder_def ins_placeholder_def isDigit_def js_def)

lemma placeholder_close:
  "re_close del_placeholder \<noteq> []"
  "hd (re_close del_placeholder) \<notin> set (tl (re_close del_placeholder))"
  "re_close ins_placeholder \<noteq> []"
  "hd (re_close ins_placeholder) \<notin> set (tl (re_close ins_placeholder))"
  by (simp_all add: del_placeholder_def ins_placeholder_def js_def)

lemma skip_wrapped:
  assumes "re_open re \<noteq> []"
    and "hd (re_open re) \<notin> set xs1" and "\<And>z. \<not> prefix (re_open re) (x1 # xs1 @ z)"
    and "\<not> sublist (re_open re) t" and "x2 \<notin> set (tl (re_open re))"
    and "hd (re_open re) \<notin> set xs2" and "\<And>z. \<not> prefix (re_open re) (x2 # xs2 @ z)"
  shows "replaceAll re ((x1 # xs1) @ t @ (x2 # xs2) @ r)
         = (x1 # xs1) @ t @ (x2 # xs2) @ replaceAll re r"
proof -
  have a: "replaceAll re (x1 # xs1 @ (t @ (x2 # xs2) @ r))
           = x1 # xs1 @ replaceAll re (t @ (x2 # xs2) @ r)"
    by (rule replaceAll_skip_tag [OF assms(1,2,3)])
  have b: "replaceAll re (t @ ((x2 # xs2) @ r)) = t @ replaceAll re ((x2 # xs2) @ r)"
    using assms(4,5) by (intro replaceAll_skip_sub) simp_all
  have c: "replaceAll re (x2 # xs2 @ r) = x2 # xs2 @ replaceAll re r"
    by (rule replaceAll_skip_tag [OF assms(1,6,7)])
  from a b c show ?thesis by simp
qed

lemma ins_tag_shape:
  "src ins_placeholder i t
     = (0x3C # (tl (re_open ins_placeholder) @ decimal i @ re_id_end ins_placeholder)) @ t
       @ (0x3C # tl (re_close ins_placeholder))"
  by (simp add: src_def ins_placeholder_def js_def)

lemma del_span_shape:
  "dst del_placeholder i t
     = (0x3C # (tl (out_start del_placeholder) @ decimal i @ out_middle del_placeholder)) @ t
       @ (0x3C # tl (out_end del_placeholder))"
  by (simp add: dst_def del_placeholder_def js_def)

lemma pass3_insert:
  assumes "clean_text t"
  shows "replaceAll del_placeholder (src ins_placeholder i t @ r)
         = src ins_placeholder i t @ replaceAll del_placeholder r"
proof -
  have "replaceAll del_placeholder
          ((0x3C # (tl (re_open ins_placeholder) @ decimal i @ re_id_end ins_placeholder)) @ t
           @ (0x3C # tl (re_close ins_placeholder)) @ r)
        = (0x3C # (tl (re_open ins_placeholder) @ decimal i @ re_id_end ins_placeholder)) @ t
           @ (0x3C # tl (re_close ins_placeholder)) @ replaceAll del_placeholder r"
  proof (rule skip_wrapped)
    show "re_open del_placeholder \<noteq> []" by (rule placeholder_open)
    show "hd (re_open del_placeholder)
            \<notin> set (tl (re_open ins_placeholder) @ decimal i @ re_id_end ins_placeholder)"
      using decimal_no_lt [of i]
      by (simp add: placeholder_open) (simp add: ins_placeholder_def js_def)
    show "\<not> prefix (re_open del_placeholder)
            (0x3C # (tl (re_open ins_placeholder) @ decimal i @ re_id_end ins_placeholder) @ z)" for z
      by (simp add: del_placeholder_def ins_placeholder_def js_def)
    show "\<not> sublist (re_open del_placeholder) t" using assms by (rule clean_fragments)
    show "0x3C \<notin> set (tl (re_open del_placeholder))" by (rule placeholder_open)
    show "hd (re_open del_placeholder) \<notin> set (tl (re_close ins_placeholder))"
      by (simp add: placeholder_open) (simp add: ins_placeholder_def js_def)
    show "\<not> prefix (re_open del_placeholder) (0x3C # tl (re_close ins_placeholder) @ z)" for z
      by (simp add: del_placeholder_def ins_placeholder_def js_def)
  qed
  then show ?thesis by (simp add: ins_tag_shape)
qed

lemma pass4_delete:
  assumes "clean_text t"
  shows "replaceAll ins_placeholder (dst del_placeholder i t @ r)
         = dst del_placeholder i t @ replaceAll ins_placeholder r"
proof -
  have "replaceAll ins_placeholder
          ((0x3C # (tl (out_start del_placeholder) @ decimal i @ out_middle del_placeholder)) @ t
           @ (0x3C # tl (out_end del_placeholder)) @ r)
        = (0x3C # (tl (out_start del_placeholder) @ decimal i @ out_middle del_placeholder)) @ t
           @ (0x3C # tl (out_end del_placeholder)) @ replaceAll ins_placeholder r"
  proof (rule skip_wrapped)
    show "re_open ins_placeholder \<noteq> []" by (rule placeholder_open)
    show "hd (re_open ins_placeholder)
            \<notin> set (tl (out_start del_placeholder) @ decimal i @ out_middle del_placeholder)"
      using decimal_no_lt [of i]
      by (simp add: placeholder_open) (simp add: del_placeholder_def js_def)
    show "\<not> prefix (re_open ins_placeholder)
            (0x3C # (tl (out_start del_placeholder) @ decimal i @ out_middle del_placeholder) @ z)" for z
      by (simp add: del_placeholder_def ins_placeholder_def js_def)
    show "\<not> sublist (re_open ins_placeholder) t" using assms by (rule clean_fragments)
    show "0x3C \<notin> set (tl (re_open ins_placeholder))" by (rule placeholder_open)
    show "hd (re_open ins_placeholder) \<notin> set (tl (out_end del_placeholder))"
      by (simp add: placeholder_open) (simp add: del_placeholder_def js_def)
    show "\<not> prefix (re_open ins_placeholder) (0x3C # tl (out_end del_placeholder) @ z)" for z
      by (simp add: del_placeholder_def ins_placeholder_def js_def)
  qed
  then show ?thesis by (simp add: del_span_shape)
qed

lemma pass3_part:
  assumes "part_ok p"
  shows "replaceAll del_placeholder (part_form (src del_placeholder) (src ins_placeholder) i p @ r)
         = part_form (dst del_placeholder) (src ins_placeholder) i p @ replaceAll del_placeholder r"
proof (cases "type_d p")
  case DIFF_DELETE
  with assms have "clean_text (text_d p)" by (simp add: part_ok_def)
  from found_by_sub [OF placeholder_open(1) placeholder_id_end(1,2) placeholder_close(1,2)
      clean_fragments(2) [OF this]] DIFF_DELETE
  show ?thesis by (simp add: part_form_def)
next
  case DIFF_EQUAL
  then show ?thesis by (simp add: part_form_def)
next
  case DIFF_INSERT
  with assms have "clean_text (text_d p)" by (simp add: part_ok_def)
  from pass3_insert [OF this] DIFF_INSERT show ?thesis by (simp add: part_form_def)
qed

lemma pass4_part:
  assumes "part_ok p"
  shows "replaceAll ins_placeholder (part_form (dst del_placeholder) (src ins_placeholder) i p @ r)
         = part_form (dst del_placeholder) (dst ins_placeholder) i p @ replaceAll ins_placeholder r"
proof (cases "type_d p")
  case DIFF_DELETE
  with assms have "clean_text (text_d p)" by (simp add: part_ok_def)
  from pass4_delete [OF this] DIFF_DELETE show ?thesis by (simp add: part_form_def)
next
  case DIFF_EQUAL
  then show ?thesis by (simp add: part_form_def)
next
  case DIFF_INSERT
  with assms have "clean_text (text_d p)" by (simp add: part_ok_def)
  from found_by_sub [OF placeholder_open(4) placeholder_id_end(3,4) placeholder_close(3,4)
      clean_fragments(4) [OF this]] DIFF_INSERT
  show ?thesis by (simp add: part_form_def)
qed

lemma tag_heads:
  "hd (src del_placeholder i t) = 0x3C \<and> src del_placeholder i t \<noteq> []"
  "hd (src ins_placeholder i t) = 0x3C \<and> src ins_placeholder i t \<noteq> []"
  "hd (dst del_placeholder i t) = 0x3C \<and> dst del_placeholder i t \<noteq> []"
  by (simp_all add: src_def dst_def del_placeholder_def ins_placeholder_def js_def)

lemma pass3:
  assumes "list_all unit_ok us" and "no_adjacent_equal us"
  shows "replaceAll del_placeholder (doc_form (src del_placeholder) (src ins_placeholder) us)
         = doc_form (dst del_placeholder) (src ins_placeholder) us"
proof (rule pass_doc [where ctx = "\<lambda>r. True" and tctx = "tagged 0x3C", OF _ _ _ _ _ _ _ assms])
  show "replaceAll del_placeholder (part_form (src del_placeholder) (src ins_placeholder) i p @ r)
        = part_form (dst del_placeholder) (src ins_placeholder) i p @ replaceAll del_placeholder r"
    if "part_ok p" for p i r
    using that by (rule pass3_part)
  show "replaceAll del_placeholder (t @ r) = t @ replaceAll del_placeholder r"
    if "clean_text t" and "tagged 0x3C r" for t r
    using that placeholder_open(3)
    by (intro replaceAll_skip_sub clean_fragments) (auto simp add: tagged_def)
  show "tagged 0x3C []" by (simp add: tagged_def)
  show "tagged 0x3C (concat (map (part_form (src del_placeholder) (src ins_placeholder) i) ps) @ r)"
    if "list_ex (\<lambda>p. type_d p \<noteq> DIFF_EQUAL) ps" for ps i r
    using that tag_heads by (intro tagged_parts) auto
qed simp_all

lemma pass4:
  assumes "list_all unit_ok us" and "no_adjacent_equal us"
  shows "replaceAll ins_placeholder (doc_form (dst del_placeholder) (src ins_placeholder) us)
         = doc_form (dst del_placeholder) (dst ins_placeholder) us"
proof (rule pass_doc [where ctx = "\<lambda>r. True" and tctx = "tagged 0x3C", OF _ _ _ _ _ _ _ assms])
  show "replaceAll ins_placeholder (part_form (dst del_placeholder) (src ins_placeholder) i p @ r)
        = part_form (dst del_placeholder) (dst ins_placeholder) i p @ replaceAll ins_placeholder r"
    if "part_ok p" for p i r
    using that by (rule pass4_part)
  show "replaceAll ins_placeholder (t @ r) = t @ replaceAll ins_placeholder r"
    if "clean_text t" and "tagged 0x3C r" for t r
    using that placeholder_open(6)
    by (intro replaceAll_skip_sub clean_fragments) (auto simp add: tagged_def)
  show "tagged 0x3C []" by (simp add: tagged_def)
  show "tagged 0x3C (concat (map (part_form (dst del_placeholder) (src ins_placeholder) i) ps) @ r)"
    if "list_ex (\<lambda>p. type_d p \<noteq> DIFF_EQUAL) ps" for ps i r
    using that tag_heads by (intro tagged_parts) auto
qed simp_all

subsection \<open>The round trip\<close>

text \<open>
  The ids in the markers.  An integer below \<open>2^53\<close> is printed with its decimal digits;
  \<open>10^21\<close> is the first Number printed in exponent form.
\<close>

lemma show_id_small: "i < 2 ^ 53 \<Longrightarrow> show_id (Some i) = decimal i"
  by (simp add: show_id_def numberToString_def)

lemma show_id_examples:
  "show_id None = js ''null''"
  "show_id (Some 0) = js ''0''"
  "show_id (Some 42) = js ''42''"
  "show_id (Some (10 ^ 21)) = js ''1e+21''"
  by (simp_all add: show_id_def numberToString_def toNumber_def shortest_def candidates_def
      reads_as_def nearer_def distance_def bit_length.simps decimal.simps js_def Let_def)

lemma renderPart_form:
  "i < 2 ^ 53 \<Longrightarrow> renderPart (Some i) p = part_form (src del_marker) (src ins_marker) i p"
  by (cases "type_d p")
    (simp_all add: renderPart_def part_form_def src_def show_id_small del_marker_def ins_marker_def)

lemma fold_append_forms:
  "fold (\<lambda>part md. md @ f part) ps acc = acc @ concat (map f ps)"
  by (induction ps arbitrary: acc) simp_all

lemma buildFrom_doc:
  "list_all unit_ok us \<Longrightarrow>
     buildFrom acc us = Inr (acc @ doc_form (src del_marker) (src ins_marker) us)"
proof (induction us arbitrary: acc)
  case Nil
  then show ?case by (simp add: doc_form_Nil)
next
  case (Cons u us)
  then have u: "unit_ok u" and us: "list_all unit_ok us" by simp_all
  show ?case
  proof (cases "type_c u")
    case equal
    from unit_ok_equal [OF u equal] obtain p ps where p: "parts u = p # ps" by blast
    with equal Cons.IH [OF us] show ?thesis
      by (simp add: doc_form_Cons unit_form_equal [OF equal p])
  next
    case change
    from unit_ok_change [OF u change] obtain n where n: "id_c u = Some n" and small: "n < 2 ^ 53"
      by blast
    with change Cons.IH [OF us] show ?thesis
      by (simp add: doc_form_Cons unit_form_change [OF change n] fold_append_forms renderPart_form)
  qed
qed

lemma spans_are_expected:
  "dst del_placeholder = span_of ''diff-delete''" "dst ins_placeholder = span_of ''diff-insert''"
  by (simp_all add: fun_eq_iff dst_def span_of_def del_placeholder_def ins_placeholder_def js_def)

text \<open>
  What the decoders do right.  Take a sequence of change units in which every equal unit
  has a first part, every change unit has an integer below \<open>2^53\<close> as id and at least one
  delete or insert part, and no two equal units are adjacent.  Let the text of every
  equal unit and of every delete and insert part contain no \<open>\x00\<close> and none of the four
  placeholder tag fragments, and let no equal text and no insert text be \<open>DEL\<close> followed
  by digits only.  Then \<open>buildDiffMarkdown\<close> returns a string, and \<open>markersToPlaceholders\<close>
  followed by \<open>placeholdersToSpans\<close> turns it into the string \<open>expected_markup\<close>: every
  equal text as it is, and for every delete or insert part a span of its class with the
  unit's id as \<open>data-change-id\<close> around the part's text.  A deleted text \<open>DEL5\<close> and an
  inserted text \<open>INS5\<close> are among these units.
\<close>

lemma clean_units_round_trip:
  assumes "list_all unit_ok units" and "no_adjacent_equal units"
  shows "\<exists>md. buildDiffMarkdown units = Inr md
            \<and> placeholdersToSpans (markersToPlaceholders md) = expected_markup units"
proof -
  have "buildDiffMarkdown units = Inr (doc_form (src del_marker) (src ins_marker) units)"
    using buildFrom_doc [OF assms(1), of "[]"] by (simp add: buildDiffMarkdown_def)
  moreover have "placeholdersToSpans (markersToPlaceholders
                    (doc_form (src del_marker) (src ins_marker) units))
                 = expected_markup units"
    using pass1 [OF assms] pass2 [OF assms] pass3 [OF assms] pass4 [OF assms]
    by (simp add: placeholdersToSpans_def markersToPlaceholders_def expected_markup_def
        marker_out_is_placeholder spans_are_expected)
  ultimately show ?thesis by blast
qed

lemma replacement_units_ok: "list_all unit_ok replacement_units \<and> no_adjacent_equal replacement_units"
  by (simp add: replacement_units_def new_unit_def unit_ok_def part_ok_def clean_text_def
      del_like_def placeholder_fragments_def sublist_Cons_right js_def NUL_def)

lemma replacement_units_round_trip:
  \<open>buildDiffMarkdown replacement_units
     = Inr (js ''hello '' @ NUL # js ''DEL0'' @ NUL # js ''world'' @ NUL # js ''/DEL'' @ NUL
            # NUL # js ''INS0'' @ NUL # js ''universe'' @ NUL # js ''/INS'' @ [NUL])
   \<and> placeholdersToSpans (markersToPlaceholders
        (js ''hello '' @ NUL # js ''DEL0'' @ NUL # js ''world'' @ NUL # js ''/DEL'' @ NUL
            # NUL # js ''INS0'' @ NUL # js ''universe'' @ NUL # js ''/INS'' @ [NUL]))
     = js ''hello <span class="diff-delete" data-change-id="0">world</span><span class="diff-insert" data-change-id="0">universe</span>''\<close>
proof -
  have b: "buildDiffMarkdown replacement_units
     = Inr (js ''hello '' @ NUL # js ''DEL0'' @ NUL # js ''world'' @ NUL # js ''/DEL'' @ NUL
            # NUL # js ''INS0'' @ NUL # js ''universe'' @ NUL # js ''/INS'' @ [NUL])"
    by (simp add: buildDiffMarkdown_def replacement_units_def new_unit_def renderPart_def
        show_id_def numberToString_def decimal.simps js_def)
  have e: \<open>expected_markup replacement_units
     = js ''hello <span class="diff-delete" data-change-id="0">world</span><span class="diff-insert" data-change-id="0">universe</span>''\<close>
    by (simp add: expected_markup_def doc_form_def unit_form_def part_form_def span_of_def
        replacement_units_def new_unit_def decimal.simps js_def)
  from clean_units_round_trip [of replacement_units] replacement_units_ok b e
  show ?thesis by auto
qed

lemma sibling_units_ok: "list_all unit_ok sibling_units \<and> no_adjacent_equal sibling_units"
  by (simp add: sibling_units_def new_unit_def unit_ok_def part_ok_def clean_text_def
      del_like_def placeholder_fragments_def sublist_Cons_right js_def NUL_def isDigit_def)

lemma sibling_units_round_trip:
  \<open>\<exists>md. buildDiffMarkdown sibling_units = Inr md
     \<and> placeholdersToSpans (markersToPlaceholders md)
       = js ''a <span class="diff-delete" data-change-id="0">DEL5</span><span class="diff-insert" data-change-id="0">INS5</span> c<span class="diff-delete" data-change-id="1"> d</span>''\<close>
proof -
  have e: \<open>expected_markup sibling_units
     = js ''a <span class="diff-delete" data-change-id="0">DEL5</span><span class="diff-insert" data-change-id="0">INS5</span> c<span class="diff-delete" data-change-id="1"> d</span>''\<close>
    by (simp add: expected_markup_def doc_form_def unit_form_def part_form_def span_of_def
        sibling_units_def new_unit_def decimal.simps js_def)
  from clean_units_round_trip [of sibling_units] sibling_units_ok show ?thesis
    unfolding e by blast
qed

subsection \<open>An inserted text that reads like the inside of a delete marker\<close>

lemma cex_group: "groupDiffsIntoChanges cex_parts = cex_units"
  by (simp add: groupDiffsIntoChanges_def cex_parts_def cex_units_def)

lemma cex_build: "buildDiffMarkdown cex_units = Inr cex_markdown"
  by (simp add: buildDiffMarkdown_def cex_units_def cex_markdown_def new_unit_def renderPart_def
      show_id_def numberToString_def decimal.simps js_def)

lemma cex_m2p:
  \<open>markersToPlaceholders cex_markdown
    = js ''a <diffdelete data-id="0">b</diffdelete>'' @ NUL
      # js ''INS0<diffdelete data-id="5">/INS'' @ NUL # js '' c'' @ NUL # js ''DEL1'' @ NUL
      # js '' d</diffdelete>''\<close>
  by (simp add: cex_markdown_def marker_eval)

lemma cex_p2s: "placeholdersToSpans (markersToPlaceholders cex_markdown) = cex_markup"
  unfolding cex_m2p cex_markup_def by (simp add: marker_eval)

text \<open>
  Claim C4 at the diff of \<open>a b c d\<close> and \<open>a DEL5 c\<close>.  The grouper makes four units of
  the five parts of this diff: \<open>a \<close> equal, change 0 with \<open>b\<close> deleted and \<open>DEL5\<close>
  inserted, \<open> c\<close> equal, change 1 with \<open> d\<close> deleted.  No text has a \<open>\x00\<close>.  In the
  markdown of \<open>buildDiffMarkdown\<close> the \<open>\x00\<close> that ends the opening insert marker is
  followed by \<open>DEL5\<close> and the \<open>\x00\<close> of the closing insert marker, and the delete
  expression, which \<open>markersToPlaceholders\<close> applies first, takes this for an opening
  delete marker with id 5 and matches up to the closing marker of change 1.  After both
  decoders the markup is \<open>cex_markup\<close>: it has no insert span at all, the span of change 1
  is missing, and there is a delete span with the id 5, which no unit has, around
  \<open>/INS\x00 c\x00DEL1\x00 d\<close>.  The claim asks for an insert span with id 0 around \<open>DEL5\<close>
  and a delete span with id 1 around \<open> d\<close>.
\<close>

theorem marker_round_trip_fails:
  \<open>groupDiffsIntoChanges cex_parts = cex_units
   \<and> NUL \<notin> set (concat (map text_d cex_parts))
   \<and> buildDiffMarkdown cex_units = Inr cex_markdown
   \<and> placeholdersToSpans (markersToPlaceholders cex_markdown) = cex_markup
   \<and> \<not> sublist (js ''class="diff-insert"'') cex_markup
   \<and> \<not> sublist (js ''data-change-id="1"'') cex_markup
   \<and> sublist (js ''<span class="diff-delete" data-change-id="5">'') cex_markup\<close>
proof (intro conjI)
  show "groupDiffsIntoChanges cex_parts = cex_units" by (rule cex_group)
  show "NUL \<notin> set (concat (map text_d cex_parts))"
    by (simp add: cex_parts_def js_def NUL_def)
  show "buildDiffMarkdown cex_units = Inr cex_markdown" by (rule cex_build)
  show "placeholdersToSpans (markersToPlaceholders cex_markdown) = cex_markup" by (rule cex_p2s)
  show \<open>\<not> sublist (js ''class="diff-insert"'') cex_markup\<close>
    by (simp add: cex_markup_def js_def NUL_def sublist_Cons_right)
  show \<open>\<not> sublist (js ''data-change-id="1"'') cex_markup\<close>
    by (simp add: cex_markup_def js_def NUL_def sublist_Cons_right)
  show \<open>sublist (js ''<span class="diff-delete" data-change-id="5">'') cex_markup\<close>
    by (simp add: cex_markup_def js_def NUL_def sublist_Cons_right)
qed

subsection \<open>Placeholder tags inside the text\<close>

text \<open>
  Text that holds a placeholder tag is outside what the format can carry: a deleted text
  with a closing placeholder tag ends the lazy match of \<open>placeholdersToSpans\<close> early, so
  the span comes out empty and the rest of the text follows it.
\<close>

lemma tag_text_not_kept:
  \<open>buildDiffMarkdown tag_units
     = Inr (NUL # js ''DEL0'' @ NUL # js ''</diffdelete>x'' @ NUL # js ''/DEL'' @ [NUL])
   \<and> placeholdersToSpans (markersToPlaceholders
         (NUL # js ''DEL0'' @ NUL # js ''</diffdelete>x'' @ NUL # js ''/DEL'' @ [NUL]))
     = js ''<span class="diff-delete" data-change-id="0"></span>x</diffdelete>''
   \<and> expected_markup tag_units
     = js ''<span class="diff-delete" data-change-id="0"></diffdelete>x</span>''\<close>
proof (intro conjI)
  show \<open>buildDiffMarkdown tag_units
     = Inr (NUL # js ''DEL0'' @ NUL # js ''</diffdelete>x'' @ NUL # js ''/DEL'' @ [NUL])\<close>
    by (simp add: buildDiffMarkdown_def tag_units_def new_unit_def renderPart_def
        show_id_def numberToString_def decimal.simps js_def NUL_def)
  have m2p: \<open>markersToPlaceholders
         (NUL # js ''DEL0'' @ NUL # js ''</diffdelete>x'' @ NUL # js ''/DEL'' @ [NUL])
     = js ''<diffdelete data-id="0"></diffdelete>x</diffdelete>''\<close>
    by (simp add: marker_eval)
  show \<open>placeholdersToSpans (markersToPlaceholders
         (NUL # js ''DEL0'' @ NUL # js ''</diffdelete>x'' @ NUL # js ''/DEL'' @ [NUL]))
     = js ''<span class="diff-delete" data-change-id="0"></span>x</diffdelete>''\<close>
    unfolding m2p by (simp add: marker_eval)
  show \<open>expected_markup tag_units
     = js ''<span class="diff-delete" data-change-id="0"></diffdelete>x</span>''\<close>
    by (simp add: expected_markup_def doc_form_def unit_form_def part_form_def span_of_def
        tag_units_def new_unit_def decimal.simps js_def)
qed

section \<open>Markers on their own beside complete pairs\<close>

text \<open>
  A marker text is taken apart into a leading stretch of plain text and a list of
  pieces, each followed by a stretch of plain text.  A piece is a complete pair, an
  opening marker on its own or a closing marker on its own.
\<close>

subsection \<open>One expression on a text of blocks\<close>

lemma regex_shape:
  "re_open (regex_of k) = NUL # letters k"
  "re_id_end (regex_of k) = [NUL]"
  "re_close (regex_of k) = NUL # 0x2F # letters k @ [NUL]"
  by (cases k; simp add: del_marker_def ins_marker_def js_def)+

lemma letters_facts:
  "length (letters k) = 3" "NUL \<notin> set (letters k)" "0x2F \<notin> set (letters k)"
  "0x3C \<notin> set (letters k)"
  by (cases k; simp add: js_def NUL_def)+

lemma letters_inj: "letters k = letters k' \<longleftrightarrow> k = k'"
  by (cases k; cases k'; simp add: js_def)

lemma digits_no_NUL: "digits ds \<Longrightarrow> NUL \<notin> set ds"
  using digit_not_NUL by (auto simp add: digits_def list_all_iff)

lemma opener_inside_intro: "digits ds \<Longrightarrow> opener_inside k (letters k @ ds)"
  by (simp add: opener_inside_def digits_def letters_facts)

lemma opener_inside_other: "digits ds \<Longrightarrow> k' \<noteq> k \<Longrightarrow> \<not> opener_inside k (letters k' @ ds)"
  by (simp add: opener_inside_def letters_facts letters_inj)

lemma opener_inside_slash: "\<not> opener_inside k (0x2F # letters k')"
  by (cases k; cases k'; simp add: opener_inside_def js_def)

lemma opener_inside_angle: "opener_inside k u \<Longrightarrow> 0x3C \<notin> set u"
proof -
  assume a: "opener_inside k u"
  have "u = take 3 u @ drop 3 u" by simp
  then have "set u = set (take 3 u) \<union> set (drop 3 u)" by (metis set_append)
  moreover have "0x3C \<notin> set (take 3 u)" using a by (simp add: opener_inside_def letters_facts)
  moreover have "0x3C \<notin> set (drop 3 u)"
    using a digit_not_lt by (auto simp add: opener_inside_def list_all_iff)
  ultimately show ?thesis by blast
qed

lemma blocks_Cons: "blocks (u # us) = NUL # u @ blocks us"
  by (simp add: blocks_def)

lemma blocks_tagged: "tagged NUL B \<Longrightarrow> tagged NUL (blocks us @ B)"
  by (cases us) (simp_all add: blocks_def tagged_def)

lemma quiet_open:
  assumes "NUL \<notin> set u" and "\<not> opener_inside k u" and "tagged NUL B"
  shows "matchAt (regex_of k) (NUL # u @ B) = None"
proof (rule ccontr)
  assume "matchAt (regex_of k) (NUL # u @ B) \<noteq> None"
  then obtain ds c rest where m: "matchAt (regex_of k) (NUL # u @ B) = Some (ds, c, rest)" by auto
  from matchAt_digits [OF m] have ds: "digits ds" by (simp add: digits_def list_all_iff)
  from matchAt_Some [OF m]
  have r: "u @ B = (letters k @ ds) @ NUL # (c @ re_close (regex_of k) @ rest)"
    by (simp add: regex_shape)
  have nn: "NUL \<notin> set (letters k @ ds)"
    using digits_no_NUL [OF ds] by (simp add: letters_facts)
  show False
  proof (cases B)
    case Nil
    with r have "NUL \<in> set u" by (metis append_Nil2 in_set_conv_decomp)
    with assms(1) show False by simp
  next
    case (Cons x B')
    with assms(3) have "x = NUL" by (simp add: tagged_def)
    with Cons r have "u @ NUL # B' = (letters k @ ds) @ NUL # (c @ re_close (regex_of k) @ rest)"
      by simp
    from split_at_NUL [OF assms(1) nn this] have "u = letters k @ ds" .
    with opener_inside_intro [OF ds] assms(2) show False by simp
  qed
qed

lemma quiet_close:
  assumes "NUL \<notin> set u" and "u \<noteq> 0x2F # letters k" and "tagged NUL B"
  shows "\<not> prefix (close_marker k) (NUL # u @ B)"
proof
  assume "prefix (close_marker k) (NUL # u @ B)"
  then obtain z where z: "u @ B = (0x2F # letters k) @ NUL # z"
    by (auto simp add: prefix_def close_marker_def regex_shape)
  have nn: "NUL \<notin> set (0x2F # letters k)" by (simp add: letters_facts) (simp add: NUL_def)
  show False
  proof (cases B)
    case Nil
    with z have "NUL \<in> set u" by (metis append_Nil2 in_set_conv_decomp)
    with assms(1) show False by simp
  next
    case (Cons x B')
    with assms(3) have "x = NUL" by (simp add: tagged_def)
    with Cons z have "u @ NUL # B' = (0x2F # letters k) @ NUL # z" by simp
    from split_at_NUL [OF assms(1) nn this] assms(2) show False by simp
  qed
qed

lemma skip_block:
  assumes "NUL \<notin> set u" and "matchAt (regex_of k) (NUL # u @ X) = None"
  shows "replaceAll (regex_of k) (NUL # u @ X) = NUL # u @ replaceAll (regex_of k) X"
proof -
  have "replaceAll (regex_of k) (u @ X) = u @ replaceAll (regex_of k) X"
    using assms(1) by (intro replaceAll_skip_char) (simp_all add: regex_shape)
  with assms(2) show ?thesis by simp
qed

lemma skip_blocks:
  assumes "\<forall>u\<in>set us. NUL \<notin> set u \<and> \<not> opener_inside k u" and "tagged NUL B"
  shows "replaceAll (regex_of k) (blocks us @ B) = blocks us @ replaceAll (regex_of k) B"
  using assms(1)
proof (induction us)
  case Nil
  then show ?case by (simp add: blocks_def)
next
  case (Cons u us)
  then have u: "NUL \<notin> set u" "\<not> opener_inside k u" by simp_all
  have "tagged NUL (blocks us @ B)" using assms(2) by (rule blocks_tagged)
  from quiet_open [OF u this] have "matchAt (regex_of k) (NUL # u @ blocks us @ B) = None" .
  from skip_block [OF u(1) this] Cons show ?case by (simp add: blocks_Cons)
qed

lemma found_pair:
  assumes "digits ds" and "NUL \<notin> set c"
  shows "replaceAll (regex_of k) (open_marker k ds @ c @ close_marker k @ R)
         = placeholder k ds c @ replaceAll (regex_of k) R"
proof -
  have "findFirst (re_close (regex_of k)) (c @ re_close (regex_of k) @ R) = Some (c, R)"
    using assms(2) by (intro findFirst_char) (simp_all add: regex_shape)
  from replaceAll_found [of ds "regex_of k" c R, OF _ _ _ _ _ this] assms(1)
  show ?thesis
    by (simp add: open_marker_def close_marker_def placeholder_def digits_def list_all_iff
        regex_shape isDigit_def NUL_def)
qed

lemma lone_open_quiet:
  assumes "digits ds" and "findFirst (close_marker k) R = None"
  shows "matchAt (regex_of k) (open_marker k ds @ R) = None"
proof -
  have "takeWhile isDigit (ds @ NUL # R) = ds \<and> dropWhile isDigit (ds @ NUL # R) = NUL # R"
    using assms(1) by (intro takeWhile_digits) (simp_all add: digits_def list_all_iff isDigit_def NUL_def)
  moreover have "stripPrefix (re_open (regex_of k)) (open_marker k ds @ R) = Some (ds @ NUL # R)"
    by (simp add: stripPrefix_iff open_marker_def regex_shape)
  ultimately show ?thesis
    using assms(2) by (simp add: matchAt_def close_marker_def regex_shape)
qed

lemma absent_Cons:
  "findFirst lit (c # cs) = None \<longleftrightarrow> \<not> prefix lit (c # cs) \<and> findFirst lit cs = None"
  by (auto simp add: stripPrefix_None_iff [symmetric] split: option.splits)

lemma absent_skip_char:
  assumes "lit \<noteq> []" and "hd lit \<notin> set p" and "findFirst lit r = None"
  shows "findFirst lit (p @ r) = None"
  using assms(2)
proof (induction p)
  case Nil
  then show ?case using assms(3) by simp
next
  case (Cons c cs)
  then have "hd lit \<noteq> c" by auto
  with assms(1) have "\<not> prefix lit (c # cs @ r)" by (cases lit) auto
  with Cons show ?case by (simp add: absent_Cons del: findFirst.simps)
qed

lemma absent_blocks:
  assumes "\<forall>u\<in>set us. NUL \<notin> set u \<and> u \<noteq> 0x2F # letters k" and "tagged NUL B"
    and "findFirst (close_marker k) B = None"
  shows "findFirst (close_marker k) (blocks us @ B) = None"
  using assms(1)
proof (induction us)
  case Nil
  then show ?case using assms(3) by (simp add: blocks_def)
next
  case (Cons u us)
  then have u: "NUL \<notin> set u" "u \<noteq> 0x2F # letters k"
    and ih: "findFirst (close_marker k) (blocks us @ B) = None" by simp_all
  have t: "tagged NUL (blocks us @ B)" using assms(2) by (rule blocks_tagged)
  have "findFirst (close_marker k) (u @ blocks us @ B) = None"
    using u(1) ih absent_skip_char [of "close_marker k" u "blocks us @ B"]
    by (simp add: close_marker_def regex_shape)
  with quiet_close [OF u t] show ?case
    by (simp add: blocks_Cons absent_Cons del: findFirst.simps)
qed

subsection \<open>One expression on a text of pieces\<close>

lemma item_blocks: "marker_form p @ t = blocks (chunks p t)"
  by (cases p) (simp_all add: blocks_def open_marker_def close_marker_def regex_shape)

lemma body_Cons: "body f ((p, t) # rest) = f p @ t @ body f rest"
  by (simp add: body_def)

lemma body_Nil: "body f [] = []"
  by (simp add: body_def)

lemma marker_form_head: "marker_form p \<noteq> [] \<and> hd (marker_form p) = NUL"
  by (cases p) (simp_all add: open_marker_def close_marker_def regex_shape)

lemma body_tagged: "tagged NUL (body marker_form items)"
proof (cases items)
  case Nil
  then show ?thesis by (simp add: body_Nil tagged_def)
next
  case (Cons a rest)
  obtain p t where "a = (p, t)" by (cases a)
  with Cons marker_form_head [of p] show ?thesis by (simp add: body_Cons tagged_def)
qed

lemma opener_chunk:
  assumes "digits ds"
  shows "NUL \<notin> set (letters k @ ds)" and "letters k @ ds \<noteq> 0x2F # letters K"
proof -
  show "NUL \<notin> set (letters k @ ds)"
    using digits_no_NUL [OF assms] by (simp add: letters_facts)
  have "hd (letters k @ ds) \<noteq> 0x2F" by (cases k) (simp_all add: js_def)
  then show "letters k @ ds \<noteq> 0x2F # letters K" by auto
qed

lemma closer_chunk:
  "NUL \<notin> set (0x2F # letters k)" "0x2F # letters k = 0x2F # letters K \<longleftrightarrow> k = K"
  by (cases k; cases K; simp add: js_def NUL_def)+

lemma chunks_no_close:
  assumes "calm_for K t" and "piece_fits K p rest" and "\<not> closes K p"
  shows "\<forall>u\<in>set (chunks p t). NUL \<notin> set u \<and> u \<noteq> 0x2F # letters K"
proof (cases p)
  case (Matched k ds c)
  with assms have "digits ds" "NUL \<notin> set c" "k \<noteq> K" "calm_for K c" by auto
  with assms(1) opener_chunk(1) [of ds k] opener_chunk(2) [of ds k K]
    closer_chunk(1) [of k] closer_chunk(2) [of k K]
  show ?thesis by (auto simp add: Matched calm_for_def)
next
  case (Lone_open k ds)
  with assms have "digits ds" by simp
  with assms(1) opener_chunk(1) [of ds k] opener_chunk(2) [of ds k K] show ?thesis
    by (auto simp add: Lone_open calm_for_def)
next
  case (Lone_close k)
  with assms have "k \<noteq> K" by simp
  with assms(1) closer_chunk(1) [of k] closer_chunk(2) [of k K] show ?thesis
    by (auto simp add: Lone_close calm_for_def)
qed

lemma absent_body:
  assumes "fits K items" and "\<not> list_ex (\<lambda>(q, t). closes K q) items"
  shows "findFirst (close_marker K) (body marker_form items) = None"
  using assms
proof (induction items)
  case Nil
  then show ?case by (simp add: body_Nil close_marker_def regex_shape)
next
  case (Cons a rest)
  obtain p t where a: "a = (p, t)" by (cases a)
  with Cons.prems have f: "calm_for K t" "piece_fits K p rest" "fits K rest"
    and n: "\<not> closes K p" "\<not> list_ex (\<lambda>(q, t). closes K q) rest" by simp_all
  from Cons.IH [OF f(3) n(2)] have ih: "findFirst (close_marker K) (body marker_form rest) = None" .
  from absent_blocks [OF chunks_no_close [OF f(1,2) n(1)] body_tagged ih]
  show ?case by (simp add: a body_Cons item_blocks [symmetric])
qed

lemma chunks_no_open:
  assumes "calm_for K t" and "piece_fits K p rest"
    and "\<forall>k ds c. p = Matched k ds c \<longrightarrow> k \<noteq> K" and "\<forall>k ds. p = Lone_open k ds \<longrightarrow> k \<noteq> K"
  shows "\<forall>u\<in>set (chunks p t). NUL \<notin> set u \<and> \<not> opener_inside K u"
proof (cases p)
  case (Matched k ds c)
  with assms have "digits ds" "NUL \<notin> set c" "k \<noteq> K" "calm_for K c" by auto
  with assms(1) opener_chunk(1) [of ds k] closer_chunk(1) [of k]
    opener_inside_other [of ds k K] opener_inside_slash [of K k]
  show ?thesis by (auto simp add: Matched calm_for_def)
next
  case (Lone_open k ds)
  with assms have "digits ds" "k \<noteq> K" by auto
  with assms(1) opener_chunk(1) [of ds k] opener_inside_other [of ds k K] show ?thesis
    by (auto simp add: Lone_open calm_for_def)
next
  case (Lone_close k)
  with assms(1) closer_chunk(1) [of k] opener_inside_slash [of K k] show ?thesis
    by (auto simp add: Lone_close calm_for_def)
qed

lemma pass_body:
  assumes "fits K items"
  shows "replaceAll (regex_of K) (body marker_form items) = body (rewritten K) items"
  using assms
proof (induction items)
  case Nil
  then show ?case by (simp add: body_Nil)
next
  case (Cons a rest)
  obtain p t where a: "a = (p, t)" by (cases a)
  with Cons.prems have f: "calm_for K t" "piece_fits K p rest" "fits K rest" by simp_all
  from Cons.IH [OF f(3)]
  have ih: "replaceAll (regex_of K) (body marker_form rest) = body (rewritten K) rest" .
  let ?B = "body marker_form rest"
  have t: "NUL \<notin> set t" "\<not> opener_inside K t" using f(1) by (simp_all add: calm_for_def)
  have skip_t: "replaceAll (regex_of K) (t @ ?B) = t @ replaceAll (regex_of K) ?B"
    using t(1) by (intro replaceAll_skip_char) (simp_all add: regex_shape)
  have inert: "replaceAll (regex_of K) (marker_form p @ t @ ?B)
               = marker_form p @ t @ replaceAll (regex_of K) ?B"
    if "\<forall>k ds c. p = Matched k ds c \<longrightarrow> k \<noteq> K" and "\<forall>k ds. p = Lone_open k ds \<longrightarrow> k \<noteq> K"
    using skip_blocks [OF chunks_no_open [OF f(1,2) that] body_tagged, of rest]
    by (simp add: item_blocks [symmetric])
  show ?case
  proof (cases p)
    case (Matched k ds c)
    show ?thesis
    proof (cases "k = K")
      case True
      with f(2) Matched have "digits ds" "NUL \<notin> set c" by simp_all
      from found_pair [OF this, of K "t @ ?B"] skip_t ih True show ?thesis
        by (simp add: a body_Cons Matched)
    next
      case False
      with inert Matched ih show ?thesis by (simp add: a body_Cons)
    qed
  next
    case (Lone_open k ds)
    show ?thesis
    proof (cases "k = K")
      case True
      with f(2) Lone_open have ds: "digits ds" and n: "\<not> list_ex (\<lambda>(q, t). closes K q) rest"
        by simp_all
      have "findFirst (close_marker K) (t @ ?B) = None"
        using absent_skip_char [of "close_marker K" t ?B] t(1) absent_body [OF f(3) n]
        by (simp add: close_marker_def regex_shape)
      from lone_open_quiet [OF ds this]
      have q: "matchAt (regex_of K) (NUL # (letters K @ ds) @ (NUL # t @ ?B)) = None"
        by (simp add: open_marker_def regex_shape)
      have "NUL \<notin> set (letters K @ ds)" using digits_no_NUL [OF ds] by (simp add: letters_facts)
      from skip_block [OF this q]
      have first: "replaceAll (regex_of K) (open_marker K ds @ t @ ?B)
                   = NUL # (letters K @ ds) @ replaceAll (regex_of K) (NUL # t @ ?B)"
        by (simp add: open_marker_def regex_shape)
      have "replaceAll (regex_of K) (blocks [t] @ ?B) = blocks [t] @ replaceAll (regex_of K) ?B"
        using t by (intro skip_blocks body_tagged) simp
      with first ih True show ?thesis
        by (simp add: a body_Cons Lone_open blocks_def open_marker_def regex_shape)
    next
      case False
      with inert Lone_open ih show ?thesis by (simp add: a body_Cons)
    qed
  next
    case (Lone_close k)
    with inert ih show ?thesis by (simp add: a body_Cons)
  qed
qed

lemma pass_text:
  assumes "NUL \<notin> set t0" and "fits K items"
  shows "replaceAll (regex_of K) (text_of marker_form t0 items) = text_of (rewritten K) t0 items"
proof -
  have "replaceAll (regex_of K) (t0 @ body marker_form items)
        = t0 @ replaceAll (regex_of K) (body marker_form items)"
    using assms(1) by (intro replaceAll_skip_char) (simp_all add: regex_shape)
  with pass_body [OF assms(2)] show ?thesis by (simp add: text_of_def body_def)
qed

subsection \<open>Both expressions\<close>

text \<open>
  After the delete expression the delete pairs are placeholder elements, which have no
  \<open>\x00\<close>.  For the insert expression they are text: each is taken together with the
  plain text around it.
\<close>

lemma absorbed_text:
  "absorbed items = (u, items') \<Longrightarrow> body (rewritten Del) items = u @ body marker_form items'"
proof (induction items arbitrary: u items')
  case Nil
  then show ?case by (simp add: body_Nil)
next
  case (Cons a rest)
  obtain p t where a: "a = (p, t)" by (cases a)
  obtain u1 r1 where r: "absorbed rest = (u1, r1)" by (cases "absorbed rest")
  from Cons.IH [OF r] have ih: "body (rewritten Del) rest = u1 @ body marker_form r1" .
  show ?case
  proof (cases "is_del_pair p")
    case True
    then have "rewritten Del p = placeholder_form p" by (cases p) simp_all
    with Cons.prems True ih show ?thesis by (simp add: a r body_Cons)
  next
    case False
    then have "rewritten Del p = marker_form p" by (cases p) simp_all
    with Cons.prems False ih show ?thesis by (auto simp add: a r body_Cons)
  qed
qed

lemma absorbed_result:
  "absorbed items = (u, items') \<Longrightarrow> body placeholder_form items = u @ body (rewritten Ins) items'"
proof (induction items arbitrary: u items')
  case Nil
  then show ?case by (simp add: body_Nil)
next
  case (Cons a rest)
  obtain p t where a: "a = (p, t)" by (cases a)
  obtain u1 r1 where r: "absorbed rest = (u1, r1)" by (cases "absorbed rest")
  from Cons.IH [OF r] have ih: "body placeholder_form rest = u1 @ body (rewritten Ins) r1" .
  show ?case
  proof (cases "is_del_pair p")
    case True
    with Cons.prems ih show ?thesis by (simp add: a r body_Cons)
  next
    case False
    have "rewritten Ins p = placeholder_form p"
    proof (cases p)
      case (Matched k ds c)
      with False have "k = Ins" by (cases k) simp_all
      with Matched show ?thesis by simp
    qed simp_all
    with Cons.prems False ih show ?thesis by (auto simp add: a r body_Cons)
  qed
qed

lemma absorbed_closes:
  "absorbed items = (u, items') \<Longrightarrow> list_ex (\<lambda>(q, t). closes Ins q) items'
     \<Longrightarrow> list_ex (\<lambda>(q, t). closes Ins q) items"
proof (induction items arbitrary: u items')
  case Nil
  then show ?case by simp
next
  case (Cons a rest)
  obtain p t where a: "a = (p, t)" by (cases a)
  obtain u1 r1 where r: "absorbed rest = (u1, r1)" by (cases "absorbed rest")
  show ?case
  proof (cases "is_del_pair p")
    case True
    with Cons.prems have "items' = r1" by (simp add: a r)
    with Cons.IH [OF r] Cons.prems(2) show ?thesis by simp
  next
    case False
    with Cons.prems have "items' = (p, t @ u1) # r1" by (simp add: a r)
    with Cons.IH [OF r] Cons.prems(2) show ?thesis by (auto simp add: a)
  qed
qed

lemma plain_calm: "plain u \<Longrightarrow> calm_for K u"
  by (cases K) (auto simp add: plain_def marker_inside_def calm_for_def)

lemma placeholder_text:
  assumes "digits ds" and "NUL \<notin> set c"
  shows "NUL \<notin> set (placeholder k ds c)" and "0x3C \<in> set (placeholder k ds c)"
  using assms digits_no_NUL [OF assms(1)]
  by (cases k; simp add: placeholder_def del_marker_def ins_marker_def js_def NUL_def)+

lemma angle_calm:
  assumes "NUL \<notin> set u" and "0x3C \<in> set u"
  shows "calm_for K u"
proof -
  have "\<not> opener_inside K u" using assms(2) opener_inside_angle by blast
  moreover have "u \<noteq> 0x2F # letters K" using assms(2) letters_facts(4) [of K] by auto
  ultimately show ?thesis using assms(1) by (simp add: calm_for_def)
qed

lemma well_formed_fits_Del: "well_formed items \<Longrightarrow> fits Del items"
proof (induction items)
  case Nil
  then show ?case by simp
next
  case (Cons a rest)
  obtain p t where a: "a = (p, t)" by (cases a)
  with Cons.prems have w: "piece_ok p" "plain t" "stays_open p rest" "well_formed rest" by simp_all
  have "piece_fits Del p rest"
    using w(1,3) by (cases p) (auto simp add: plain_calm plain_def)
  with Cons.IH [OF w(4)] w(2) show ?case by (simp add: a plain_calm)
qed

lemma absorbed_fits:
  assumes "well_formed items" and "absorbed items = (u, items')"
  shows "fits Ins items' \<and> NUL \<notin> set u \<and> (u = [] \<or> 0x3C \<in> set u)"
  using assms
proof (induction items arbitrary: u items')
  case Nil
  then show ?case by simp
next
  case (Cons a rest)
  obtain p t where a: "a = (p, t)" by (cases a)
  with Cons.prems have w: "piece_ok p" "plain t" "stays_open p rest" "well_formed rest" by simp_all
  obtain u1 r1 where r: "absorbed rest = (u1, r1)" by (cases "absorbed rest")
  from Cons.IH [OF w(4) r]
  have ih: "fits Ins r1" "NUL \<notin> set u1" "u1 = [] \<or> 0x3C \<in> set u1" by simp_all
  have t: "NUL \<notin> set t" using w(2) by (simp add: plain_def)
  show ?case
  proof (cases "is_del_pair p")
    case True
    then obtain ds c where p: "p = Matched Del ds c" by (cases p) auto
    with w(1) have "digits ds" "NUL \<notin> set c" by (simp_all add: plain_def)
    from placeholder_text [OF this, of Del] Cons.prems(2) True ih t show ?thesis
      by (auto simp add: a r p)
  next
    case False
    have "calm_for Ins (t @ u1)"
    proof (cases "u1 = []")
      case True
      with w(2) show ?thesis by (simp add: plain_calm)
    next
      case False
      with ih(2,3) t show ?thesis by (intro angle_calm) auto
    qed
    moreover have "piece_fits Ins p r1"
    proof (cases p)
      case (Matched k ds c)
      with False have "k = Ins" by (cases k) simp_all
      with Matched w(1) show ?thesis by (simp add: plain_def)
    next
      case (Lone_open k ds)
      with w(3) absorbed_closes [OF r] w(1) show ?thesis by auto
    next
      case (Lone_close k)
      then show ?thesis by simp
    qed
    ultimately show ?thesis using Cons.prems(2) False ih(1) by (auto simp add: a r)
  qed
qed

lemma pieces_decoded:
  assumes "plain t0" and "well_formed items"
  shows "markersToPlaceholders (text_of marker_form t0 items) = text_of placeholder_form t0 items"
proof -
  obtain u items' where ab: "absorbed items = (u, items')" by (cases "absorbed items")
  from absorbed_fits [OF assms(2) ab]
  have f: "fits Ins items'" and u: "NUL \<notin> set u" by simp_all
  have t0: "NUL \<notin> set t0" using assms(1) by (simp add: plain_def)
  have "replaceAll del_marker (text_of marker_form t0 items) = text_of (rewritten Del) t0 items"
    using pass_text [OF t0 well_formed_fits_Del [OF assms(2)]] by simp
  also have "\<dots> = text_of marker_form (t0 @ u) items'"
    using absorbed_text [OF ab] by (simp add: text_of_def body_def)
  finally have one: "replaceAll del_marker (text_of marker_form t0 items)
                     = text_of marker_form (t0 @ u) items'" .
  have "replaceAll ins_marker (text_of marker_form (t0 @ u) items')
        = text_of (rewritten Ins) (t0 @ u) items'"
    using pass_text [of "t0 @ u" Ins items', OF _ f] t0 u by simp
  also have "\<dots> = text_of placeholder_form t0 items"
    using absorbed_result [OF ab] by (simp add: text_of_def body_def)
  finally show ?thesis unfolding markersToPlaceholders_def one .
qed

subsection \<open>The decoder on markers without a partner\<close>

text \<open>
  Claim C8, as stated, fails.  The text \<open>\x00INS1\x00DEL5\x00x\x00/DEL\x00\<close> starts with
  the opening marker \<open>\x00INS1\x00\<close> and has no closing insert marker, so this opening
  marker has no partner.  It is not left as it is: its second \<open>\x00\<close> also starts
  \<open>\x00DEL5\x00\<close>, which the delete expression matches with the closing delete marker.
  The result is \<open>\x00INS1\<close> followed by a delete placeholder; the opening insert marker
  occurs nowhere in it.
\<close>

theorem lone_open_marker_not_kept:
  \<open>prefix (open_marker Ins (js ''1'')) overlap_text
   \<and> \<not> sublist (close_marker Ins) overlap_text
   \<and> markersToPlaceholders overlap_text = NUL # js ''INS1<diffdelete data-id="5">x</diffdelete>''
   \<and> \<not> sublist (open_marker Ins (js ''1'')) (markersToPlaceholders overlap_text)\<close>
proof -
  have out: \<open>markersToPlaceholders overlap_text
             = NUL # js ''INS1<diffdelete data-id="5">x</diffdelete>''\<close>
    by (simp add: overlap_text_def marker_eval)
  have "prefix (open_marker Ins (js ''1'')) overlap_text"
    by (simp add: overlap_text_def open_marker_def ins_marker_def js_def)
  moreover have "\<not> sublist (close_marker Ins) overlap_text"
    by (simp add: overlap_text_def close_marker_def ins_marker_def js_def NUL_def sublist_Cons_right)
  moreover have "\<not> sublist (open_marker Ins (js ''1'')) (markersToPlaceholders overlap_text)"
    unfolding out by (simp add: open_marker_def ins_marker_def js_def NUL_def sublist_Cons_right)
  ultimately show ?thesis using out by blast
qed

text \<open>
  The same happens with the kinds exchanged: two markers that share a \<open>\x00\<close> are read
  this way by both expressions.
\<close>

lemma lone_open_del_shares_NUL:
  \<open>markersToPlaceholders (NUL # js ''DEL1'' @ NUL # js ''INS5'' @ NUL # js ''x'' @ NUL # js ''/INS'' @ [NUL])
     = NUL # js ''DEL1<diffinsert data-id="5">x</diffinsert>''\<close>
  by (simp add: marker_eval)

text \<open>
  Claim C8, amended.  \<open>markersToPlaceholders\<close> is a total function: \<open>replaceAll\<close> terminates
  on every string and no step of it can throw.

  Take a text made of a stretch of plain text and then pieces, each followed by a
  stretch of plain text, where a piece is a complete pair (an opening marker, a content,
  the closing marker of the same kind), an opening marker on its own or a closing marker
  on its own.  Let every id be a string of one or more digits.  Let every plain stretch
  and every content have no \<open>\x00\<close> and not be the inside of a marker, that is, not be
  \<open>DEL\<close> or \<open>INS\<close> followed by one or more digits and nothing else, nor \<open>/DEL\<close>, nor
  \<open>/INS\<close>.  Let no closing marker of a kind, in a pair or on its own, come after an
  opening marker of that kind that is on its own.  Then the result is the text with
  every complete pair replaced by its placeholder element and everything else, the
  markers on their own included, as it was.

  Moreover every text in which neither expression matches at any position is returned
  exactly as given; so is every text that has neither closing marker, and every text
  that has neither \<open>\x00DEL\<close> nor \<open>\x00INS\<close>.
\<close>

theorem markersToPlaceholders_lone_markers_literal:
  "(plain t0 \<and> well_formed items
      \<longrightarrow> markersToPlaceholders (text_of marker_form t0 items) = text_of placeholder_form t0 items)
   \<and> ((\<forall>s. suffix s t \<longrightarrow> matchAt del_marker s = None \<and> matchAt ins_marker s = None)
      \<longrightarrow> markersToPlaceholders t = t)
   \<and> (\<not> sublist (re_close del_marker) t \<and> \<not> sublist (re_close ins_marker) t
      \<longrightarrow> markersToPlaceholders t = t)
   \<and> (\<not> sublist (re_open del_marker) t \<and> \<not> sublist (re_open ins_marker) t
      \<longrightarrow> markersToPlaceholders t = t)"
  using pieces_decoded [of t0 items] no_match_unchanged [of t] no_close_unchanged [of t]
    no_open_unchanged [of t]
  by blast

theorem markersToPlaceholders_lone_markers_literal_witness:
  \<open>text_of marker_form (js ''a '') example_pieces
     = js ''a '' @ NUL # js ''DEL1'' @ NUL # js ''x'' @ NUL # js ''/DEL'' @ NUL # js '' b ''
       @ NUL # js ''/INS'' @ NUL # NUL # js ''INS2'' @ NUL # js ''y'' @ NUL # js ''/INS'' @ NUL
       # js '' c'' @ NUL # js ''DEL7'' @ NUL # js '' tail'' @ NUL # js ''INS3'' @ [NUL]
   \<and> markersToPlaceholders (text_of marker_form (js ''a '') example_pieces)
     = js ''a <diffdelete data-id="1">x</diffdelete> b '' @ NUL # js ''/INS'' @ NUL
       # js ''<diffinsert data-id="2">y</diffinsert> c'' @ NUL # js ''DEL7'' @ NUL
       # js '' tail'' @ NUL # js ''INS3'' @ [NUL]
   \<and> markersToPlaceholders (NUL # js ''DELx'' @ NUL # js ''abc'' @ NUL # js ''/DEL'' @ [NUL])
     = NUL # js ''DELx'' @ NUL # js ''abc'' @ NUL # js ''/DEL'' @ [NUL]
   \<and> markersToPlaceholders (js ''a'' @ NUL # js ''DEL5'' @ NUL # js ''bc'')
     = js ''a'' @ NUL # js ''DEL5'' @ NUL # js ''bc''
   \<and> markersToPlaceholders (js ''ab'' @ NUL # js ''/INS'' @ NUL # js ''c'')
     = js ''ab'' @ NUL # js ''/INS'' @ NUL # js ''c''\<close>
proof (intro conjI)
  show \<open>text_of marker_form (js ''a '') example_pieces
     = js ''a '' @ NUL # js ''DEL1'' @ NUL # js ''x'' @ NUL # js ''/DEL'' @ NUL # js '' b ''
       @ NUL # js ''/INS'' @ NUL # NUL # js ''INS2'' @ NUL # js ''y'' @ NUL # js ''/INS'' @ NUL
       # js '' c'' @ NUL # js ''DEL7'' @ NUL # js '' tail'' @ NUL # js ''INS3'' @ [NUL]\<close>
    by (simp add: example_pieces_def piece_eval del_marker_def ins_marker_def js_def)
next
  have wf: "plain (js ''a '') \<and> well_formed example_pieces"
    by (simp add: example_pieces_def piece_eval js_def NUL_def isDigit_def)
  have dst: \<open>text_of placeholder_form (js ''a '') example_pieces
     = js ''a <diffdelete data-id="1">x</diffdelete> b '' @ NUL # js ''/INS'' @ NUL
       # js ''<diffinsert data-id="2">y</diffinsert> c'' @ NUL # js ''DEL7'' @ NUL
       # js '' tail'' @ NUL # js ''INS3'' @ [NUL]\<close>
    by (simp add: example_pieces_def piece_eval del_marker_def ins_marker_def js_def)
  from markersToPlaceholders_lone_markers_literal [of "js ''a ''" example_pieces] wf
  show \<open>markersToPlaceholders (text_of marker_form (js ''a '') example_pieces)
     = js ''a <diffdelete data-id="1">x</diffdelete> b '' @ NUL # js ''/INS'' @ NUL
       # js ''<diffinsert data-id="2">y</diffinsert> c'' @ NUL # js ''DEL7'' @ NUL
       # js '' tail'' @ NUL # js ''INS3'' @ [NUL]\<close>
    unfolding dst by blast
next
  have "\<forall>s. suffix s (NUL # js ''DELx'' @ NUL # js ''abc'' @ NUL # js ''/DEL'' @ [NUL])
          \<longrightarrow> matchAt del_marker s = None \<and> matchAt ins_marker s = None"
    unfolding all_suffixes
    by (simp add: js_def NUL_def isDigit_def matchAt_def del_marker_def ins_marker_def)
  with markersToPlaceholders_lone_markers_literal
         [where t = "NUL # js ''DELx'' @ NUL # js ''abc'' @ NUL # js ''/DEL'' @ [NUL]"]
  show "markersToPlaceholders (NUL # js ''DELx'' @ NUL # js ''abc'' @ NUL # js ''/DEL'' @ [NUL])
     = NUL # js ''DELx'' @ NUL # js ''abc'' @ NUL # js ''/DEL'' @ [NUL]"
    by blast
next
  have "\<not> sublist (re_close del_marker) (js ''a'' @ NUL # js ''DEL5'' @ NUL # js ''bc'')
      \<and> \<not> sublist (re_close ins_marker) (js ''a'' @ NUL # js ''DEL5'' @ NUL # js ''bc'')"
    by (simp add: js_def NUL_def del_marker_def ins_marker_def sublist_Cons_right)
  with markersToPlaceholders_lone_markers_literal
         [where t = "js ''a'' @ NUL # js ''DEL5'' @ NUL # js ''bc''"]
  show "markersToPlaceholders (js ''a'' @ NUL # js ''DEL5'' @ NUL # js ''bc'')
     = js ''a'' @ NUL # js ''DEL5'' @ NUL # js ''bc''"
    by blast
next
  have "\<not> sublist (re_open del_marker) (js ''ab'' @ NUL # js ''/INS'' @ NUL # js ''c'')
      \<and> \<not> sublist (re_open ins_marker) (js ''ab'' @ NUL # js ''/INS'' @ NUL # js ''c'')"
    by (simp add: js_def NUL_def del_marker_def ins_marker_def sublist_Cons_right)
  with markersToPlaceholders_lone_markers_literal
         [where t = "js ''ab'' @ NUL # js ''/INS'' @ NUL # js ''c''"]
  show "markersToPlaceholders (js ''ab'' @ NUL # js ''/INS'' @ NUL # js ''c'')
     = js ''ab'' @ NUL # js ''/INS'' @ NUL # js ''c''"
    by blast
qed

section \<open>The codes of the tokens\<close>

lemma add_new_append: "add_new ds (xs @ ys) = add_new (add_new ds xs) ys"
  by (induction xs arbitrary: ds) simp_all

lemma set_add_new: "set (add_new ds ts) = set ds \<union> set ts"
  by (induction ts arbitrary: ds) auto

lemma distinct_add_new: "distinct ds \<Longrightarrow> distinct (add_new ds ts)"
  by (induction ts arbitrary: ds) auto

lemma add_new_extends: "\<exists>ext. add_new ds ts = ds @ ext"
proof (induction ts arbitrary: ds)
  case Nil
  then show ?case by simp
next
  case (Cons t ts)
  from Cons [of "if t \<in> set ds then ds else ds @ [t]"] show ?case
    by (auto split: if_splits)
qed

lemma coded_snoc:
  "coded c0 (ds @ [t]) = coded c0 ds @ [(t, fromCharCode (c0 + length ds))]"
  by (simp add: coded_def)

lemma coded_lookup_None: "map_of (coded c0 ds) t = None \<longleftrightarrow> t \<notin> set ds"
  by (simp add: coded_def)

lemma coded_lookup:
  assumes "distinct ds" and "k < length ds"
  shows "map_of (coded c0 ds) (ds ! k) = Some (fromCharCode (c0 + k))"
  using map_of_zip_nth [of ds "map (\<lambda>k. fromCharCode (c0 + k)) [0 ..< length ds]" k] assms
  by (simp add: coded_def)

lemma coded_append:
  "coded c0 (ds @ ext)
     = coded c0 ds
       @ zip ext (map (\<lambda>k. fromCharCode (c0 + k)) [length ds ..< length ds + length ext])"
proof -
  have "[0 ..< length (ds @ ext)] = [0 ..< length ds] @ [length ds ..< length ds + length ext]"
    using upt_add_eq_append [of 0 "length ds" "length ext"] by simp
  then have "map (\<lambda>k. fromCharCode (c0 + k)) [0 ..< length (ds @ ext)]
      = map (\<lambda>k. fromCharCode (c0 + k)) [0 ..< length ds]
        @ map (\<lambda>k. fromCharCode (c0 + k)) [length ds ..< length ds + length ext]"
    by (simp only: map_append)
  then show ?thesis
    unfolding coded_def by (simp only: zip_append length_map length_upt diff_zero)
qed

lemma coded_lookup_stable:
  assumes "t \<in> set ds"
  shows "map_of (coded c0 (ds @ ext)) t = map_of (coded c0 ds) t"
proof -
  from assms have "t \<in> dom (map_of (coded c0 ds))"
    using coded_lookup_None [of c0 ds t] by blast
  then show ?thesis
    unfolding coded_append by (simp only: map_of_append map_add_dom_app_simps)
qed

lemma getWordChar_coded:
  "getWordChar t (coded c0 ds, c0 + length ds)
     = (the (map_of (coded c0 (add_new ds [t])) t),
        (coded c0 (add_new ds [t]), c0 + length (add_new ds [t])))"
proof (cases "t \<in> set ds")
  case True
  then obtain ch where "map_of (coded c0 ds) t = Some ch"
    using coded_lookup_None [of c0 ds t] by (cases "map_of (coded c0 ds) t") auto
  with True show ?thesis by (simp add: getWordChar_def)
next
  case False
  then have "map_of (coded c0 ds) t = None" by (simp add: coded_lookup_None)
  with False show ?thesis by (simp add: getWordChar_def coded_snoc map_add_def)
qed

lemma mapGetWordChar_coded:
  "mapGetWordChar ts (coded c0 ds, c0 + length ds)
     = (map (\<lambda>t. the (map_of (coded c0 (add_new ds ts)) t)) ts,
        (coded c0 (add_new ds ts), c0 + length (add_new ds ts)))"
proof (induction ts arbitrary: ds)
  case Nil
  then show ?case by simp
next
  case (Cons t ts)
  let ?ds1 = "add_new ds [t]"
  obtain ext where ext: "add_new ?ds1 ts = ?ds1 @ ext"
    using add_new_extends by blast
  have "t \<in> set ?ds1" by simp
  then have "map_of (coded c0 (add_new ?ds1 ts)) t = map_of (coded c0 ?ds1) t"
    unfolding ext by (rule coded_lookup_stable)
  moreover have "add_new ds (t # ts) = add_new ?ds1 ts" by simp
  ultimately show ?case
    using Cons [of ?ds1] by (simp add: getWordChar_coded del: add_new.simps)
qed

lemma wordMap_of_coded:
  "wordMap_of original proposed = coded 0x100 (distinct_tokens original proposed)"
proof -
  let ?ds1 = "add_new [] (tokenize original)"
  have start: "initial_word_state = (coded 0x100 [], 0x100 + length ([] :: jsstring list))"
    by (simp add: initial_word_state_def coded_def)
  have "snd (mapGetWordChar (tokenize original) initial_word_state)
             = (coded 0x100 ?ds1, 0x100 + length ?ds1)"
    unfolding start using mapGetWordChar_coded [of "tokenize original" "0x100" "[]"] by simp
  moreover have "snd (mapGetWordChar (tokenize proposed) (coded 0x100 ?ds1, 0x100 + length ?ds1))
             = (coded 0x100 (add_new ?ds1 (tokenize proposed)),
                0x100 + length (add_new ?ds1 (tokenize proposed)))"
    using mapGetWordChar_coded [of "tokenize proposed" "0x100" ?ds1] by simp
  ultimately show ?thesis
    by (simp add: wordMap_of_def distinct_tokens_def add_new_append)
qed

lemma distinct_tokens_props:
  "distinct (distinct_tokens a b)"
  "set (distinct_tokens a b) = set (tokenize a) \<union> set (tokenize b)"
  "length (distinct_tokens a b) = card (set (tokenize a) \<union> set (tokenize b))"
proof -
  show d: "distinct (distinct_tokens a b)"
    by (simp add: distinct_tokens_def distinct_add_new)
  show s: "set (distinct_tokens a b) = set (tokenize a) \<union> set (tokenize b)"
    by (simp add: distinct_tokens_def set_add_new)
  from distinct_card [OF d] s
  show "length (distinct_tokens a b) = card (set (tokenize a) \<union> set (tokenize b))" by simp
qed

lemma fromCharCode_eq_iff:
  "fromCharCode m = fromCharCode n \<longleftrightarrow> m mod 65536 = n mod 65536"
  by (simp add: fromCharCode_def word_of_nat_eq_iff take_bit_eq_mod)

section \<open>More tokens than code units\<close>

lemma join_words_head:
  "v \<noteq> [] \<Longrightarrow> join_words (v # ws) \<noteq> [] \<and> hd (join_words (v # ws)) = hd v"
  by (cases ws) simp_all

lemma isSpace_blank: "isSpace 0x20"
  by (simp add: isSpace_def)

lemma tokenize_word_then:
  assumes "proper_word w" and "r = [] \<or> isSpace (hd r)"
  shows "tokenize (w @ r) = w # tokenize r"
proof -
  from assms(1) obtain c cs where w: "w = c # cs" and c: "\<not> isSpace c"
    and cs: "\<forall>d\<in>set cs. \<not> isSpace d"
    by (cases w) (auto simp add: proper_word_def list_all_iff)
  have "takeWhile (same_class c) (cs @ r) = cs \<and> dropWhile (same_class c) (cs @ r) = r"
  proof (cases r)
    case Nil
    with c cs show ?thesis by (simp add: same_class_def)
  next
    case (Cons x xs)
    with assms(2) have "\<not> same_class c x" using c by (simp add: same_class_def)
    with Cons c cs show ?thesis
      by (simp add: same_class_def takeWhile_append2 dropWhile_append2)
  qed
  then show ?thesis by (simp add: w)
qed

lemma tokenize_blank_then:
  assumes "r \<noteq> []" and "\<not> isSpace (hd r)"
  shows "tokenize (0x20 # r) = [0x20] # tokenize r"
proof -
  from assms obtain x xs where r: "r = x # xs" and "\<not> isSpace x" by (cases r) auto
  then have "\<not> same_class 0x20 x" by (simp add: same_class_def isSpace_blank)
  then show ?thesis by (simp add: r)
qed

lemma tokenize_join_words:
  "list_all proper_word ws \<Longrightarrow> tokenize (join_words ws) = spaced ws"
proof (induction ws rule: join_words.induct)
  case 1
  then show ?case by simp
next
  case (2 w)
  then show ?case using tokenize_word_then [of w "[]"] by simp
next
  case (3 w v ws)
  then have w: "proper_word w" and v: "proper_word v" and rest: "list_all proper_word (v # ws)"
    by simp_all
  from v have vne: "v \<noteq> []" and vh: "\<not> isSpace (hd v)"
    by (cases v; simp add: proper_word_def)+
  from join_words_head [OF vne, of ws] vh
  have "tokenize (0x20 # join_words (v # ws)) = [0x20] # tokenize (join_words (v # ws))"
    by (intro tokenize_blank_then) simp_all
  moreover have "tokenize (w @ 0x20 # join_words (v # ws)) = w # tokenize (0x20 # join_words (v # ws))"
    using w by (intro tokenize_word_then) (simp_all add: isSpace_blank)
  ultimately show ?case using "3.IH" [OF rest] by simp
qed

lemma add_new_spaced:
  assumes "[0x20] \<in> set ds" and "distinct ws" and "set ws \<inter> set ds = {}"
  shows "add_new ds (spaced ws) = ds @ ws"
  using assms
proof (induction ws arbitrary: ds rule: spaced.induct)
  case 1
  then show ?case by simp
next
  case (2 w)
  then show ?case by simp
next
  case (3 w v ws)
  have "add_new (ds @ [w]) (spaced (v # ws)) = (ds @ [w]) @ (v # ws)"
    using "3.prems" by (intro "3.IH") auto
  with "3.prems" show ?case by simp
qed

lemma add_new_spaced_start:
  assumes "distinct (w # v # ws)" and "[0x20] \<notin> set (w # v # ws)"
  shows "add_new [] (spaced (w # v # ws)) = w # [0x20] # v # ws"
proof -
  have "add_new [w, [0x20]] (spaced (v # ws)) = [w, [0x20]] @ (v # ws)"
    using assms by (intro add_new_spaced) auto
  with assms show ?thesis by simp
qed

lemma not_space_between:
  "0xA0 < unat c \<Longrightarrow> unat c < 0x1680 \<Longrightarrow> \<not> isSpace c"
  by (auto simp add: isSpace_def word_le_nat_alt)

lemma unat_letter: "x < 256 \<Longrightarrow> unat (word_of_nat (0x100 + x) :: jschar) = 0x100 + x"
  using unat_of_nat [of "0x100 + x", where ?'a = 16] by simp

lemma proper_nth_word: "k < 65536 \<Longrightarrow> proper_word (nth_word k)"
proof -
  assume k: "k < 65536"
  have ns: "\<not> isSpace (word_of_nat (0x100 + x))" if "x < 256" for x
    using that unat_letter [of x] by (intro not_space_between) simp_all
  from k have "k div 256 < 256" by simp
  with ns [of "k div 256"] ns [of "k mod 256"] show ?thesis
    by (simp add: proper_word_def nth_word_def del: of_nat_add)
qed

lemma nth_word_inj:
  assumes "nth_word j = nth_word k"
  shows "j mod 65536 = k mod 65536"
proof -
  have d: "j div 256 mod 256 = k div 256 mod 256"
  proof -
    from assms have "j div 256 mod 65536 = k div 256 mod 65536"
      by (simp add: nth_word_def word_of_nat_eq_iff take_bit_eq_mod)
    then have "j div 256 mod 65536 mod 256 = k div 256 mod 65536 mod 256" by simp
    then show ?thesis by (simp add: mod_mod_cancel)
  qed
  have m: "j mod 256 = k mod 256"
  proof -
    from assms have "j mod 256 mod 65536 = k mod 256 mod 65536"
      by (simp add: nth_word_def word_of_nat_eq_iff take_bit_eq_mod)
    then show ?thesis by simp
  qed
  have "n mod 65536 = 256 * (n div 256 mod 256) + n mod 256" for n :: nat
    using mod_mult2_eq [of n 256 256] by simp
  with d m show ?thesis by metis
qed

lemma distinct_words: "n \<le> 65536 \<Longrightarrow> distinct (map nth_word [0 ..< n])"
proof -
  assume n: "n \<le> 65536"
  have "inj_on nth_word (set [0 ..< n])"
  proof (rule inj_onI)
    fix j k assume "j \<in> set [0 ..< n]" "k \<in> set [0 ..< n]" "nth_word j = nth_word k"
    with nth_word_inj [of j k] n show "j = k" by simp
  qed
  then show ?thesis by (simp add: distinct_map)
qed

lemma upt_two: "2 \<le> n \<Longrightarrow> [0 ..< n] = 0 # 1 # [2 ..< n]"
  by (simp add: upt_conv_Cons numeral_2_eq_2)

lemma upt_one: "2 \<le> n \<Longrightarrow> [1 ..< n] = 1 # [2 ..< n]"
  by (simp add: upt_conv_Cons numeral_2_eq_2)

lemma tokens_of_words_upto:
  assumes "2 \<le> n" and "n \<le> 65536"
  shows "distinct_tokens (words_upto n) [] = nth_word 0 # [0x20] # map nth_word [1 ..< n]"
proof -
  have split: "map nth_word [0 ..< n] = nth_word 0 # nth_word 1 # map nth_word [2 ..< n]"
    using upt_two [OF assms(1)] by simp
  have "list_all proper_word (map nth_word [0 ..< n])"
    using assms(2) by (simp add: list_all_iff proper_nth_word)
  then have "tokenize (words_upto n) = spaced (map nth_word [0 ..< n])"
    unfolding words_upto_def by (rule tokenize_join_words)
  moreover have "add_new [] (spaced (nth_word 0 # nth_word 1 # map nth_word [2 ..< n]))
      = nth_word 0 # [0x20] # nth_word 1 # map nth_word [2 ..< n]"
  proof (rule add_new_spaced_start)
    show "distinct (nth_word 0 # nth_word 1 # map nth_word [2 ..< n])"
      using distinct_words [OF assms(2)] by (simp only: split)
    show "[0x20] \<notin> set (nth_word 0 # nth_word 1 # map nth_word [2 ..< n])"
      by (auto simp add: nth_word_def)
  qed
  moreover have "nth_word 1 # map nth_word [2 ..< n] = map nth_word [1 ..< n]"
    using upt_one [OF assms(1)] by simp
  ultimately show ?thesis
    by (simp add: distinct_tokens_def split)
qed

lemma codes_of_words_upto:
  assumes "2 \<le> n" and "n \<le> 65536"
  shows "map_of (wordMap_of (words_upto n) []) (nth_word 0) = Some (fromCharCode 0x100)"
    and "map_of (wordMap_of (words_upto n) []) (nth_word (n - 1)) = Some (fromCharCode (0x100 + n))"
proof -
  let ?ds = "distinct_tokens (words_upto n) []"
  have ds: "?ds = nth_word 0 # [0x20] # map nth_word [1 ..< n]"
    using assms by (rule tokens_of_words_upto)
  have len: "length ?ds = n + 1" using assms(1) by (simp add: ds)
  have first: "?ds ! 0 = nth_word 0" by (simp add: ds)
  have last: "?ds ! n = nth_word (n - 1)"
  proof -
    from assms(1) obtain m where m: "n = Suc (Suc m)"
      by (metis Suc_le_D numeral_2_eq_2 Suc_le_mono)
    define xs where "xs = map nth_word [1 ..< n]"
    have a: "m < length [1 ..< n]" and b: "1 + m < n" by (simp_all add: m)
    have "(nth_word 0 # [0x20] # xs) ! Suc (Suc m) = xs ! m" by simp
    also have "xs ! m = nth_word ([1 ..< n] ! m)" unfolding xs_def by (rule nth_map [OF a])
    also have "[1 ..< n] ! m = 1 + m" by (rule nth_upt [OF b])
    also have "1 + m = n - 1" by (simp add: m)
    finally have "(nth_word 0 # [0x20] # xs) ! Suc (Suc m) = nth_word (n - 1)" .
    then have "(nth_word 0 # [0x20] # xs) ! n = nth_word (n - 1)" by (simp only: m)
    then show ?thesis by (simp only: ds xs_def)
  qed
  from coded_lookup [OF distinct_tokens_props(1), of 0 "words_upto n" "[]" "0x100"] len first
  show "map_of (wordMap_of (words_upto n) []) (nth_word 0) = Some (fromCharCode 0x100)"
    by (simp add: wordMap_of_coded)
  from coded_lookup [OF distinct_tokens_props(1), of n "words_upto n" "[]" "0x100"] len last
  show "map_of (wordMap_of (words_upto n) []) (nth_word (n - 1)) = Some (fromCharCode (0x100 + n))"
    by (simp add: wordMap_of_coded)
qed

text \<open>
  Claim C2 at the long input.  The text \<open>many_words\<close> has 65536 different words of two
  letters with one space between neighbours, so 65537 different tokens.  Its first word
  gets the code \<open>0x100\<close>; its last word is the 65537th new token and gets
  \<open>String.fromCharCode(0x100 + 65536)\<close>, which is the code unit \<open>0x100\<close> again.  Two
  different tokens have the same code.
\<close>

theorem wordMap_codes_collide:
  "nth_word 0 \<in> set (tokenize many_words)
   \<and> nth_word 65535 \<in> set (tokenize many_words)
   \<and> nth_word 0 \<noteq> nth_word 65535
   \<and> map_of (wordMap_of many_words []) (nth_word 0) = Some [0x100]
   \<and> map_of (wordMap_of many_words []) (nth_word 65535) = Some [0x100]"
proof -
  have n: "(2::nat) \<le> 65536" "(65536::nat) \<le> 65536" by simp_all
  have "set (distinct_tokens many_words []) = set (tokenize many_words)"
    by (simp add: distinct_tokens_props(2))
  moreover have "nth_word 0 \<in> set (distinct_tokens many_words [])"
    unfolding many_words_def tokens_of_words_upto [OF n] by (simp del: upt_rec_numeral)
  moreover have "nth_word 65535 \<in> set (distinct_tokens many_words [])"
  proof -
    have "nth_word 65535 \<in> nth_word ` {1 ..< 65536}" by (rule imageI) simp
    then show ?thesis
      unfolding many_words_def tokens_of_words_upto [OF n] by (simp del: upt_rec_numeral)
  qed
  moreover have "nth_word 0 \<noteq> nth_word 65535"
    using nth_word_inj [of 0 65535] by auto
  moreover have "map_of (wordMap_of many_words []) (nth_word 0) = Some [0x100]"
    using codes_of_words_upto(1) [OF n] by (simp add: many_words_def fromCharCode_def)
  moreover have "map_of (wordMap_of many_words []) (nth_word 65535) = Some [0x100]"
  proof -
    have "fromCharCode (0x100 + 65536) = fromCharCode 0x100"
      unfolding fromCharCode_eq_iff by simp
    with codes_of_words_upto(2) [OF n] show ?thesis
      by (simp add: many_words_def fromCharCode_def)
  qed
  ultimately show ?thesis by blast
qed

section \<open>The word diff of the long input\<close>

lemma add_new_absorb: "set ts \<subseteq> set ds \<Longrightarrow> add_new ds ts = ds"
  by (induction ts arbitrary: ds) simp_all

lemma buildReverseMap_snoc:
  "buildReverseMap (wm @ [(w, c)]) = (buildReverseMap wm)(c \<mapsto> w)"
  by (simp add: buildReverseMap_def)

lemma mergeStep_head:
  assumes "acc \<noteq> []" and "type_d (hd acc) = op" and "prefix t (text_d (hd acc))"
  shows "mergeStep item acc \<noteq> [] \<and> type_d (hd (mergeStep item acc)) = op
         \<and> prefix t (text_d (hd (mergeStep item acc)))"
proof (cases "type_d (last acc) = type_d item")
  case False
  with assms show ?thesis by (simp add: mergeStep_def)
next
  case True
  show ?thesis
  proof (cases "butlast acc")
    case Nil
    with assms(1) have "acc = [hd acc]" by (cases acc) (auto split: if_splits)
    then have "last acc = hd acc" by (metis last.simps)
    with True Nil assms show ?thesis by (simp add: mergeStep_def)
  next
    case (Cons x xs)
    then have "hd (butlast acc) = hd acc" by (cases acc) (auto split: if_splits)
    with True Cons assms show ?thesis by (simp add: mergeStep_def)
  qed
qed

lemma fold_mergeStep_head:
  assumes "acc \<noteq> []" and "type_d (hd acc) = op" and "prefix t (text_d (hd acc))"
  shows "fold mergeStep items acc \<noteq> [] \<and> type_d (hd (fold mergeStep items acc)) = op
         \<and> prefix t (text_d (hd (fold mergeStep items acc)))"
  using assms
proof (induction items arbitrary: acc)
  case Nil
  then show ?case by simp
next
  case (Cons item items)
  from mergeStep_head [OF Cons.prems, of item] Cons.IH [of "mergeStep item acc"]
  show ?case by simp
qed

lemma mergeParts_head:
  "mergeParts (item # items) \<noteq> []
   \<and> type_d (hd (mergeParts (item # items))) = type_d item
   \<and> prefix (text_d item) (text_d (hd (mergeParts (item # items))))"
  using fold_mergeStep_head [of "[item]" "type_d item" "text_d item" items]
  by (simp add: mergeParts_def mergeStep_def)

lemma expandDiffs_first:
  assumes "rm [c0] = Some w" and "\<not> isHighSurrogate c0"
  shows "\<exists>items. expandDiffs rm ((op, c0 # c1 # rest) # D) = \<lparr>type_d = op, text_d = w\<rparr> # items"
  using assms by (simp add: expandDiffs_def expandChunk_def)

lemma computeWordDiff_alt:
  "computeWordDiff dmp a b
     = mergeParts (expandDiffs (buildReverseMap (wordMap_of a b))
         (dmp (concat (map (code_of a b) (tokenize a))) (concat (map (code_of a b) (tokenize b)))))"
proof -
  let ?ds1 = "add_new [] (tokenize a)"
  let ?ds2 = "add_new ?ds1 (tokenize b)"
  have start: "initial_word_state = (coded 0x100 [], 0x100 + length ([] :: jsstring list))"
    by (simp add: initial_word_state_def coded_def)
  have run1: "mapGetWordChar (tokenize a) initial_word_state
      = (map (\<lambda>t. the (map_of (coded 0x100 ?ds1) t)) (tokenize a),
         (coded 0x100 ?ds1, 0x100 + length ?ds1))"
    unfolding start using mapGetWordChar_coded [of "tokenize a" "0x100" "[]"] by simp
  have run2: "mapGetWordChar (tokenize b) (coded 0x100 ?ds1, 0x100 + length ?ds1)
      = (map (\<lambda>t. the (map_of (coded 0x100 ?ds2) t)) (tokenize b),
         (coded 0x100 ?ds2, 0x100 + length ?ds2))"
    using mapGetWordChar_coded [of "tokenize b" "0x100" ?ds1] by simp
  have wm: "wordMap_of a b = coded 0x100 ?ds2"
    by (simp add: wordMap_of_coded distinct_tokens_def add_new_append)
  obtain ext where ext: "?ds2 = ?ds1 @ ext" using add_new_extends by blast
  have "map_of (coded 0x100 ?ds2) t = map_of (coded 0x100 ?ds1) t" if "t \<in> set (tokenize a)" for t
    unfolding ext using that by (intro coded_lookup_stable) (simp add: set_add_new)
  then have codes1: "map (\<lambda>t. the (map_of (coded 0x100 ?ds1) t)) (tokenize a)
      = map (code_of a b) (tokenize a)"
    by (simp add: code_of_def wm)
  have codes2: "map (\<lambda>t. the (map_of (coded 0x100 ?ds2) t)) (tokenize b)
      = map (code_of a b) (tokenize b)"
    by (simp add: code_of_def wm)
  show ?thesis
    unfolding computeWordDiff_def Let_def run1 prod.case run2 fst_conv codes1 codes2 wm [symmetric]
    by (simp add: code_of_def [abs_def])
qed

lemma wordMap_of_same: "wordMap_of a a = wordMap_of a []"
proof -
  have "add_new (add_new [] (tokenize a)) (tokenize a) = add_new [] (tokenize a)"
    by (intro add_new_absorb) (simp add: set_add_new)
  then show ?thesis
    by (simp add: wordMap_of_coded distinct_tokens_def add_new_append)
qed

lemma code_of_same: "code_of a a = code_of a []"
  by (simp add: fun_eq_iff code_of_def wordMap_of_same)

lemma tokenize_words_upto:
  assumes "2 \<le> n" and "n \<le> 65536"
  shows "\<exists>ts. tokenize (words_upto n) = nth_word 0 # [0x20] # ts"
proof -
  have split: "map nth_word [0 ..< n] = nth_word 0 # nth_word 1 # map nth_word [2 ..< n]"
    using upt_two [OF assms(1)] by simp
  have "list_all proper_word (map nth_word [0 ..< n])"
    using assms(2) by (simp add: list_all_iff proper_nth_word)
  then have "tokenize (words_upto n) = spaced (map nth_word [0 ..< n])"
    unfolding words_upto_def by (rule tokenize_join_words)
  then show ?thesis by (simp add: split)
qed

lemma blank_code_of_words_upto:
  assumes "2 \<le> n" and "n \<le> 65536"
  shows "map_of (wordMap_of (words_upto n) []) [0x20] = Some (fromCharCode 0x101)"
proof -
  let ?ds = "distinct_tokens (words_upto n) []"
  have ds: "?ds = nth_word 0 # [0x20] # map nth_word [1 ..< n]"
    using assms by (rule tokens_of_words_upto)
  then have "1 < length ?ds" and "?ds ! 1 = [0x20]" by simp_all
  with coded_lookup [OF distinct_tokens_props(1), of 1 "words_upto n" "[]" "0x100"]
  show ?thesis by (simp add: wordMap_of_coded)
qed

lemma reverse_of_words_upto:
  assumes "2 \<le> n" and "n \<le> 65536"
  shows "buildReverseMap (wordMap_of (words_upto n) []) (fromCharCode (0x100 + n))
         = Some (nth_word (n - 1))"
proof -
  let ?ds = "distinct_tokens (words_upto n) []"
  have ds: "?ds = nth_word 0 # [0x20] # map nth_word [1 ..< n]"
    using assms by (rule tokens_of_words_upto)
  have ne: "?ds \<noteq> []" and len: "length ?ds = n + 1" using assms(1) by (simp_all add: ds)
  have "last ?ds = last (map nth_word [1 ..< n])" using assms(1) by (simp add: ds)
  also have "\<dots> = nth_word (last [1 ..< n])" using assms(1) by (simp add: last_map)
  also have "last [1 ..< n] = n - 1" using assms(1) by (simp add: last_upt)
  finally have last: "last ?ds = nth_word (n - 1)" .
  have "?ds = butlast ?ds @ [last ?ds]" using ne by simp
  then have "coded 0x100 ?ds
      = coded 0x100 (butlast ?ds) @ [(last ?ds, fromCharCode (0x100 + length (butlast ?ds)))]"
    by (metis coded_snoc)
  moreover have "length (butlast ?ds) = n" using len by simp
  ultimately have "wordMap_of (words_upto n) []
      = coded 0x100 (butlast ?ds) @ [(nth_word (n - 1), fromCharCode (0x100 + n))]"
    by (simp add: wordMap_of_coded last)
  then show ?thesis by (simp add: buildReverseMap_snoc)
qed

lemma long_input_first_part:
  assumes "b = [] \<or> b = many_words"
  shows "computeWordDiff coarse_diff many_words b \<noteq> []
         \<and> type_d (hd (computeWordDiff coarse_diff many_words b)) \<noteq> DIFF_INSERT
         \<and> prefix (nth_word 65535) (text_d (hd (computeWordDiff coarse_diff many_words b)))"
proof -
  have n: "(2::nat) \<le> 65536" "(65536::nat) \<le> 65536" by simp_all
  from tokenize_words_upto [OF n] obtain ts where
    ts: "tokenize many_words = nth_word 0 # [0x20] # ts" by (auto simp add: many_words_def)
  have c0: "code_of many_words [] (nth_word 0) = [0x100]"
    using codes_of_words_upto(1) [OF n] by (simp add: code_of_def many_words_def fromCharCode_def)
  have c1: "code_of many_words [] [0x20] = [0x101]"
    using blank_code_of_words_upto [OF n]
    by (simp add: code_of_def many_words_def fromCharCode_def)
  define rest where "rest = concat (map (code_of many_words []) ts)"
  have chars: "concat (map (code_of many_words []) (tokenize many_words)) = 0x100 # 0x101 # rest"
    by (simp add: ts c0 c1 rest_def)
  have "fromCharCode (0x100 + 65536) = [0x100]"
  proof -
    have "fromCharCode (0x100 + 65536) = fromCharCode 0x100"
      unfolding fromCharCode_eq_iff by simp
    then show ?thesis by (simp add: fromCharCode_def)
  qed
  with reverse_of_words_upto [OF n]
  have rm: "buildReverseMap (wordMap_of many_words []) [0x100] = Some (nth_word 65535)"
    by (simp add: many_words_def)
  have nh: "\<not> isHighSurrogate 0x100" by (simp add: isHighSurrogate_def)
  have "\<exists>op. op \<noteq> DIFF_INSERT
          \<and> computeWordDiff coarse_diff many_words b
              = mergeParts (expandDiffs (buildReverseMap (wordMap_of many_words []))
                              [(op, 0x100 # 0x101 # rest)])"
  proof (cases "b = []")
    case True
    then show ?thesis
      by (intro exI [of _ DIFF_DELETE]) (simp add: computeWordDiff_alt chars coarse_diff_def)
  next
    case False
    with assms have "b = many_words" by simp
    then show ?thesis
      by (intro exI [of _ DIFF_EQUAL])
        (simp add: computeWordDiff_alt wordMap_of_same code_of_same chars coarse_diff_def)
  qed
  then obtain op where op: "op \<noteq> DIFF_INSERT"
    and run: "computeWordDiff coarse_diff many_words b
              = mergeParts (expandDiffs (buildReverseMap (wordMap_of many_words []))
                              [(op, 0x100 # 0x101 # rest)])" by blast
  from expandDiffs_first [of "buildReverseMap (wordMap_of many_words [])" "0x100"
      "nth_word 65535" op "0x101" rest "[]", OF rm nh] obtain items where
    "expandDiffs (buildReverseMap (wordMap_of many_words [])) [(op, 0x100 # 0x101 # rest)]
     = \<lparr>type_d = op, text_d = nth_word 65535\<rparr> # items" by blast
  with run mergeParts_head [of "\<lparr>type_d = op, text_d = nth_word 65535\<rparr>" items] op
  show ?thesis by simp
qed

lemma hd_many_words: "many_words \<noteq> [] \<and> hd many_words = 0x100"
proof -
  have "map nth_word [0 ..< 65536] = nth_word 0 # nth_word 1 # map nth_word [2 ..< 65536]"
    using upt_two [of 65536] by (simp del: upt_rec_numeral)
  then show ?thesis
    by (simp add: many_words_def words_upto_def nth_word_def del: upt_rec_numeral)
qed

lemma hd_last_word: "hd (nth_word 65535) = 0x1FF \<and> nth_word 65535 \<noteq> []"
  by (simp add: nth_word_def)

lemma long_input_text:
  assumes "b = [] \<or> b = many_words"
  shows "hd (text_d (hd (computeWordDiff coarse_diff many_words b))) = 0x1FF"
proof -
  from long_input_first_part [OF assms] hd_last_word obtain z where
    "text_d (hd (computeWordDiff coarse_diff many_words b)) = nth_word 65535 @ z"
    by (auto simp add: prefix_def)
  with hd_last_word show ?thesis by simp
qed

lemma long_input_original:
  assumes "b = [] \<or> b = many_words"
  shows "hd (reconstruct_original (computeWordDiff coarse_diff many_words b)) = 0x1FF"
proof -
  from long_input_first_part [OF assms] obtain p ps where
    run: "computeWordDiff coarse_diff many_words b = p # ps" and p: "type_d p \<noteq> DIFF_INSERT"
    and t: "prefix (nth_word 65535) (text_d p)"
    by (cases "computeWordDiff coarse_diff many_words b") auto
  from t hd_last_word obtain z where z: "text_d p = nth_word 65535 @ z"
    by (auto simp add: prefix_def)
  from p have "reconstruct_original (p # ps) = text_d p @ reconstruct_original ps"
    by (simp add: reconstruct_original_def)
  with z hd_last_word have "hd (reconstruct_original (p # ps)) = 0x1FF" by simp
  with run show ?thesis by simp
qed

text \<open>
  Claim C1 at the long input.  The first code unit of \<open>many_words\<close> is \<open>0x100\<close>, the
  first letter of its first word.  In the word diff of \<open>many_words\<close> and the empty text,
  and in the word diff of \<open>many_words\<close> and itself, the first part is not an insert part
  and its text starts with \<open>0x1FF\<close>, the first letter of the last word: the reverse map
  holds the last word for the code \<open>0x100\<close> that both words share.  The text of the delete
  and equal parts is therefore not the original.
\<close>

theorem reconstruction_fails_on_long_input:
  "hd many_words = 0x100
   \<and> hd (reconstruct_original (computeWordDiff coarse_diff many_words [])) = 0x1FF
   \<and> reconstruct_original (computeWordDiff coarse_diff many_words []) \<noteq> many_words
   \<and> reconstruct_original (computeWordDiff coarse_diff many_words many_words) \<noteq> many_words"
proof -
  have a: "hd (reconstruct_original (computeWordDiff coarse_diff many_words [])) = 0x1FF"
    by (rule long_input_original) simp
  have b: "hd (reconstruct_original (computeWordDiff coarse_diff many_words many_words)) = 0x1FF"
    by (rule long_input_original) simp
  have "hd many_words \<noteq> 0x1FF" using hd_many_words by simp
  with a b hd_many_words show ?thesis by auto
qed

text \<open>
  Claim C7 at the long input.  The word diff of \<open>many_words\<close> and itself is not the one
  equal part with the text \<open>many_words\<close>, and the word diff of \<open>many_words\<close> and the empty
  text is not the one delete part with the text \<open>many_words\<close>: the text of the first part
  starts with another letter.
\<close>

theorem identity_fails_on_long_input:
  "computeWordDiff coarse_diff many_words many_words
     \<noteq> [\<lparr>type_d = DIFF_EQUAL, text_d = many_words\<rparr>]
   \<and> computeWordDiff coarse_diff many_words []
     \<noteq> [\<lparr>type_d = DIFF_DELETE, text_d = many_words\<rparr>]"
proof -
  have a: "hd (text_d (hd (computeWordDiff coarse_diff many_words many_words))) = 0x1FF"
    by (rule long_input_text) simp
  have b: "hd (text_d (hd (computeWordDiff coarse_diff many_words []))) = 0x1FF"
    by (rule long_input_text) simp
  have "hd many_words \<noteq> 0x1FF" using hd_many_words by simp
  with a b show ?thesis by auto
qed

section \<open>The word diff below the limit of the codes\<close>

lemma tokenize_concat: "concat (tokenize s) = s"
  by (induction s rule: tokenize.induct) simp_all

lemma mod_shift_le:
  fixes j k c m :: nat
  assumes "j \<le> k" and "k < m" and "(c + j) mod m = (c + k) mod m"
  shows "j = k"
proof -
  have "c + j \<le> c + k" using assms(1) by simp
  from mod_eq_dvd_iff_nat [OF this, of m] assms(3) have "m dvd (c + k) - (c + j)"
    by metis
  then have "m dvd k - j" by simp
  moreover have "k - j < m" using assms(2) by simp
  ultimately have "k - j = 0" by (meson dvd_imp_le leD not_gr_zero)
  with assms(1) show ?thesis by simp
qed

lemma mod_shift_inj:
  fixes j k c m :: nat
  assumes "j < m" and "k < m" and "(c + j) mod m = (c + k) mod m"
  shows "j = k"
proof (cases "j \<le> k")
  case True
  with assms show ?thesis by (intro mod_shift_le [of j k m c]) simp_all
next
  case False
  then have "k \<le> j" by simp
  with assms have "k = j" by (intro mod_shift_le [of k j m c]) simp_all
  then show ?thesis by simp
qed

lemma fromCharCode_distinct:
  assumes "j < n" and "k < n" and "n \<le> 65536" and "fromCharCode (c0 + j) = fromCharCode (c0 + k)"
  shows "j = k"
proof -
  from assms(4) have "(c0 + j) mod 65536 = (c0 + k) mod 65536"
    by (simp add: fromCharCode_eq_iff)
  with assms(1,2,3) show ?thesis by (intro mod_shift_inj [of j 65536 k c0]) simp_all
qed

lemma reverse_coded:
  "length ds \<le> 65536 \<Longrightarrow> k < length ds
     \<Longrightarrow> buildReverseMap (coded c0 ds) (fromCharCode (c0 + k)) = Some (ds ! k)"
proof (induction ds arbitrary: k rule: rev_induct)
  case Nil
  then show ?case by simp
next
  case (snoc x xs)
  show ?case
  proof (cases "k = length xs")
    case True
    then show ?thesis by (simp add: coded_snoc buildReverseMap_snoc)
  next
    case False
    with snoc.prems have k: "k < length xs" by simp
    have "fromCharCode (c0 + k) \<noteq> fromCharCode (c0 + length xs)"
      using fromCharCode_distinct [of k "length (xs @ [x])" "length xs" c0] snoc.prems False
      by auto
    moreover have "buildReverseMap (coded c0 xs) (fromCharCode (c0 + k)) = Some (xs ! k)"
      using snoc.prems k by (intro snoc.IH) simp_all
    ultimately show ?thesis using k
      by (simp add: coded_snoc buildReverseMap_snoc nth_append)
  qed
qed

lemma token_index:
  assumes "t \<in> set (tokenize a) \<union> set (tokenize b)"
  obtains k where "k < token_count a b" and "distinct_tokens a b ! k = t"
    and "code_of a b t = fromCharCode (0x100 + k)"
proof -
  from assms have "t \<in> set (distinct_tokens a b)" by (simp add: distinct_tokens_props(2))
  then obtain k where k: "k < length (distinct_tokens a b)" "distinct_tokens a b ! k = t"
    by (auto simp add: in_set_conv_nth)
  from coded_lookup [of "distinct_tokens a b" k "0x100"] distinct_tokens_props(1) [of a b] k
  have "code_of a b t = fromCharCode (0x100 + k)"
    by (simp add: code_of_def wordMap_of_coded)
  with k that show ?thesis by (simp add: token_count_def distinct_tokens_props(3))
qed

lemma codes_unique_below_limit:
  assumes "token_count a b \<le> 65536"
  shows "inj_on (code_of a b) (set (tokenize a) \<union> set (tokenize b))"
proof (rule inj_onI)
  fix s t
  assume s: "s \<in> set (tokenize a) \<union> set (tokenize b)"
    and t: "t \<in> set (tokenize a) \<union> set (tokenize b)"
    and eq: "code_of a b s = code_of a b t"
  from token_index [OF s] obtain j where j: "j < token_count a b" "distinct_tokens a b ! j = s"
    "code_of a b s = fromCharCode (0x100 + j)" by blast
  from token_index [OF t] obtain k where k: "k < token_count a b" "distinct_tokens a b ! k = t"
    "code_of a b t = fromCharCode (0x100 + k)" by blast
  from fromCharCode_distinct [OF j(1) k(1) assms] eq j(3) k(3) have "j = k" by simp
  with j(2) k(2) show "s = t" by simp
qed

lemma codes_collide_above_limit:
  assumes "65536 < token_count a b"
  shows "\<not> inj_on (code_of a b) (set (tokenize a) \<union> set (tokenize b))"
proof
  assume inj: "inj_on (code_of a b) (set (tokenize a) \<union> set (tokenize b))"
  let ?ds = "distinct_tokens a b"
  have len: "length ?ds = token_count a b"
    by (simp add: token_count_def distinct_tokens_props(3))
  with assms have i: "0 < length ?ds" "65536 < length ?ds" by simp_all
  have c0: "code_of a b (?ds ! 0) = fromCharCode (0x100 + 0)"
    using coded_lookup [of ?ds 0 "0x100"] distinct_tokens_props(1) [of a b] i(1)
    by (simp add: code_of_def wordMap_of_coded)
  have c1: "code_of a b (?ds ! 65536) = fromCharCode (0x100 + 65536)"
    using coded_lookup [of ?ds 65536 "0x100"] distinct_tokens_props(1) [of a b] i(2)
    by (simp add: code_of_def wordMap_of_coded)
  have "fromCharCode (0x100 + 0) = fromCharCode (0x100 + 65536)"
    unfolding fromCharCode_eq_iff by simp
  with c0 c1 have "code_of a b (?ds ! 0) = code_of a b (?ds ! 65536)" by simp
  moreover have "?ds ! 0 \<in> set ?ds" "?ds ! 65536 \<in> set ?ds" using i by simp_all
  ultimately have "?ds ! 0 = ?ds ! 65536"
    using inj by (simp add: inj_on_def distinct_tokens_props(2))
  with distinct_tokens_props(1) [of a b] i show False
    by (simp add: nth_eq_iff_index_eq)
qed

lemma codePoints_single:
  "\<forall>c\<in>set cs. \<not> isLowSurrogate c \<Longrightarrow> codePoints cs = map (\<lambda>c. [c]) cs"
  by (induction cs rule: codePoints.induct) simp_all

lemma mergeStep_original:
  "reconstruct_original (mergeStep item acc) = reconstruct_original acc @ reconstruct_original [item]"
proof (cases "acc \<noteq> [] \<and> type_d (last acc) = type_d item")
  case False
  then show ?thesis by (auto simp add: mergeStep_def reconstruct_original_def)
next
  case True
  then have "acc = butlast acc @ [last acc]" by simp
  then have "reconstruct_original acc
      = reconstruct_original (butlast acc) @ reconstruct_original [last acc]"
    by (metis (no_types) reconstruct_original_def filter_append map_append concat_append)
  with True show ?thesis
    by (simp add: mergeStep_def reconstruct_original_def)
qed

lemma mergeStep_proposed:
  "reconstruct_proposed (mergeStep item acc) = reconstruct_proposed acc @ reconstruct_proposed [item]"
proof (cases "acc \<noteq> [] \<and> type_d (last acc) = type_d item")
  case False
  then show ?thesis by (auto simp add: mergeStep_def reconstruct_proposed_def)
next
  case True
  then have "acc = butlast acc @ [last acc]" by simp
  then have "reconstruct_proposed acc
      = reconstruct_proposed (butlast acc) @ reconstruct_proposed [last acc]"
    by (metis (no_types) reconstruct_proposed_def filter_append map_append concat_append)
  with True show ?thesis
    by (simp add: mergeStep_def reconstruct_proposed_def)
qed

lemma fold_mergeStep_sides:
  "reconstruct_original (fold mergeStep items acc)
     = reconstruct_original acc @ reconstruct_original items"
  "reconstruct_proposed (fold mergeStep items acc)
     = reconstruct_proposed acc @ reconstruct_proposed items"
proof (induction items arbitrary: acc)
  case Nil
  {
    case 1
    then show ?case by (simp add: reconstruct_original_def)
  next
    case 2
    then show ?case by (simp add: reconstruct_proposed_def)
  }
next
  case (Cons item items)
  {
    case 1
    have "reconstruct_original (item # items)
          = reconstruct_original [item] @ reconstruct_original items"
      by (simp add: reconstruct_original_def)
    with Cons.IH(1) [of "mergeStep item acc"] show ?case by (simp add: mergeStep_original)
  next
    case 2
    have "reconstruct_proposed (item # items)
          = reconstruct_proposed [item] @ reconstruct_proposed items"
      by (simp add: reconstruct_proposed_def)
    with Cons.IH(2) [of "mergeStep item acc"] show ?case by (simp add: mergeStep_proposed)
  }
qed

lemma mergeParts_sides:
  "reconstruct_original (mergeParts items) = reconstruct_original items"
  "reconstruct_proposed (mergeParts items) = reconstruct_proposed items"
  using fold_mergeStep_sides [of items "[]"]
  by (simp_all add: mergeParts_def reconstruct_original_def reconstruct_proposed_def)

lemma not_low_below:
  assumes "k < 56064"
  shows "\<not> isLowSurrogate (word_of_nat (0x100 + k))"
proof -
  have "unat (word_of_nat (0x100 + k) :: jschar) = 0x100 + k"
    using unat_of_nat [of "0x100 + k", where ?'a = 16] assms by simp
  with assms show ?thesis by (simp add: isLowSurrogate_def word_le_nat_alt del: of_nat_add)
qed

lemma token_code:
  assumes "token_count a b \<le> 56064" and "t \<in> set (tokenize a) \<union> set (tokenize b)"
  obtains u where "code_of a b t = [u]" and "\<not> isLowSurrogate u"
    and "buildReverseMap (wordMap_of a b) [u] = Some t"
proof -
  from token_index [OF assms(2)] obtain k where k: "k < token_count a b"
    "distinct_tokens a b ! k = t" "code_of a b t = fromCharCode (0x100 + k)" by blast
  have len: "length (distinct_tokens a b) = token_count a b"
    by (simp add: token_count_def distinct_tokens_props(3))
  have "buildReverseMap (coded 0x100 (distinct_tokens a b)) (fromCharCode (0x100 + k))
        = Some (distinct_tokens a b ! k)"
    using assms(1) k(1) len by (intro reverse_coded) simp_all
  then have r: "buildReverseMap (wordMap_of a b) [word_of_nat (0x100 + k)] = Some t"
    by (simp add: wordMap_of_coded k(2) fromCharCode_def del: of_nat_add)
  have "\<not> isLowSurrogate (word_of_nat (0x100 + k))"
    using assms(1) k(1) by (intro not_low_below) simp
  with r k(3) that [of "word_of_nat (0x100 + k)"] show ?thesis
    by (simp add: fromCharCode_def del: of_nat_add)
qed

lemma coded_tokens_decode:
  assumes "token_count a b \<le> 56064" and "set ts \<subseteq> set (tokenize a) \<union> set (tokenize b)"
  shows "(\<forall>c\<in>set (concat (map (code_of a b) ts)). \<not> isLowSurrogate c)
         \<and> concat (map (decoded (buildReverseMap (wordMap_of a b)))
                      (concat (map (code_of a b) ts))) = concat ts"
  using assms(2)
proof (induction ts)
  case Nil
  then show ?case by simp
next
  case (Cons t ts)
  then have "t \<in> set (tokenize a) \<union> set (tokenize b)" by simp
  from token_code [OF assms(1) this] obtain u where u: "code_of a b t = [u]"
    "\<not> isLowSurrogate u" "buildReverseMap (wordMap_of a b) [u] = Some t" by blast
  with Cons show ?case by (simp add: decoded_def)
qed

lemma expand_units:
  "map type_d (concat (map (\<lambda>c. case rm [c] of None \<Rightarrow> []
                              | Some word \<Rightarrow> [\<lparr>type_d = op, text_d = word\<rparr>]) cs))
   = map (\<lambda>p. op) (concat (map (\<lambda>c. case rm [c] of None \<Rightarrow> []
                              | Some word \<Rightarrow> [\<lparr>type_d = op, text_d = word\<rparr>]) cs))
   \<and> concat (map text_d (concat (map (\<lambda>c. case rm [c] of None \<Rightarrow> []
                              | Some word \<Rightarrow> [\<lparr>type_d = op, text_d = word\<rparr>]) cs)))
     = concat (map (decoded rm) cs)"
  by (induction cs) (auto simp add: decoded_def split: option.splits)

lemma expandChunk_single:
  assumes "\<forall>c\<in>set cs. \<not> isLowSurrogate c"
  shows "map type_d (expandChunk rm (op, cs)) = map (\<lambda>p. op) (expandChunk rm (op, cs))
         \<and> concat (map text_d (expandChunk rm (op, cs))) = concat (map (decoded rm) cs)"
proof -
  have "expandChunk rm (op, cs)
        = concat (map (\<lambda>c. case rm [c] of None \<Rightarrow> []
                                         | Some word \<Rightarrow> [\<lparr>type_d = op, text_d = word\<rparr>]) cs)"
    by (simp add: expandChunk_def codePoints_single [OF assms] comp_def)
  then show ?thesis using expand_units [where rm = rm and op = op and cs = cs] by simp
qed

lemma reconstruct_append:
  "reconstruct_original (xs @ ys) = reconstruct_original xs @ reconstruct_original ys"
  "reconstruct_proposed (xs @ ys) = reconstruct_proposed xs @ reconstruct_proposed ys"
  by (simp_all add: reconstruct_original_def reconstruct_proposed_def)

lemma same_type_filter:
  assumes "map type_d xs = map (\<lambda>p. op) xs"
  shows "filter (\<lambda>p. type_d p \<noteq> t) xs = (if op \<noteq> t then xs else [])"
  using assms by (induction xs) auto

lemma expandChunk_sides:
  assumes "\<forall>c\<in>set cs. \<not> isLowSurrogate c"
  shows "reconstruct_original (expandChunk rm (op, cs))
         = (if op \<noteq> DIFF_INSERT then concat (map (decoded rm) cs) else [])"
    and "reconstruct_proposed (expandChunk rm (op, cs))
         = (if op \<noteq> DIFF_DELETE then concat (map (decoded rm) cs) else [])"
  using expandChunk_single [OF assms, of rm op]
  by (simp_all add: reconstruct_original_def reconstruct_proposed_def same_type_filter)

lemma expandDiffs_sides:
  assumes "\<forall>c\<in>set D. \<forall>u\<in>set (snd c). \<not> isLowSurrogate u"
  shows "reconstruct_original (expandDiffs rm D) = concat (map (decoded rm) (chunks_original D))"
    and "reconstruct_proposed (expandDiffs rm D) = concat (map (decoded rm) (chunks_proposed D))"
  using assms
proof (induction D)
  case Nil
  {
    case 1
    show ?case by (simp add: expandDiffs_def chunks_original_def reconstruct_original_def)
  next
    case 2
    show ?case by (simp add: expandDiffs_def chunks_proposed_def reconstruct_proposed_def)
  }
next
  case (Cons c D)
  obtain op cs where c: "c = (op, cs)" by (cases c)
  {
    case 1
    then have low: "\<forall>u\<in>set cs. \<not> isLowSurrogate u"
      and rest: "\<forall>c\<in>set D. \<forall>u\<in>set (snd c). \<not> isLowSurrogate u" by (simp_all add: c)
    have "expandDiffs rm (c # D) = expandChunk rm (op, cs) @ expandDiffs rm D"
      by (simp add: expandDiffs_def c)
    with Cons.IH(1) [OF rest] expandChunk_sides(1) [OF low, of rm op] show ?case
      by (simp add: reconstruct_append chunks_original_def c)
  next
    case 2
    then have low: "\<forall>u\<in>set cs. \<not> isLowSurrogate u"
      and rest: "\<forall>c\<in>set D. \<forall>u\<in>set (snd c). \<not> isLowSurrogate u" by (simp_all add: c)
    have "expandDiffs rm (c # D) = expandChunk rm (op, cs) @ expandDiffs rm D"
      by (simp add: expandDiffs_def c)
    with Cons.IH(2) [OF rest] expandChunk_sides(2) [OF low, of rm op] show ?case
      by (simp add: reconstruct_append chunks_proposed_def c)
  }
qed

lemma chunk_units:
  assumes "c \<in> set D"
  shows "set (snd c) \<subseteq> set (chunks_original D) \<union> set (chunks_proposed D)"
proof (cases "fst c = DIFF_INSERT")
  case True
  with assms have "set (snd c) \<subseteq> set (chunks_proposed D)"
    by (auto simp add: chunks_proposed_def)
  then show ?thesis by blast
next
  case False
  with assms have "set (snd c) \<subseteq> set (chunks_original D)"
    by (auto simp add: chunks_original_def)
  then show ?thesis by blast
qed

text \<open>
  Below the limit the word diff spells both texts: with at most 56064 distinct tokens every
  code is one code unit under \<open>0xDC00\<close>, so the expansion reads the codes back one by one,
  and a diff engine that keeps its contract returns chunks that spell the two coded strings.
\<close>

lemma reconstruction_below_limit:
  assumes "valid_diff dmp" and "token_count a b \<le> 56064"
  shows "reconstruct_original (computeWordDiff dmp a b) = a"
    and "reconstruct_proposed (computeWordDiff dmp a b) = b"
proof -
  let ?rm = "buildReverseMap (wordMap_of a b)"
  let ?ca = "concat (map (code_of a b) (tokenize a))"
  let ?cb = "concat (map (code_of a b) (tokenize b))"
  let ?D = "dmp ?ca ?cb"
  have A: "(\<forall>c\<in>set ?ca. \<not> isLowSurrogate c) \<and> concat (map (decoded ?rm) ?ca) = concat (tokenize a)"
    using coded_tokens_decode [OF assms(2), of "tokenize a"] by simp
  have B: "(\<forall>c\<in>set ?cb. \<not> isLowSurrogate c) \<and> concat (map (decoded ?rm) ?cb) = concat (tokenize b)"
    using coded_tokens_decode [OF assms(2), of "tokenize b"] by simp
  from assms(1) have spell: "chunks_original ?D = ?ca" "chunks_proposed ?D = ?cb"
    by (simp_all add: valid_diff_def)
  have low: "\<forall>c\<in>set ?D. \<forall>u\<in>set (snd c). \<not> isLowSurrogate u"
  proof (intro ballI)
    fix c u assume "c \<in> set ?D" and u: "u \<in> set (snd c)"
    from chunk_units [OF this(1)] u have "u \<in> set ?ca \<union> set ?cb" unfolding spell by blast
    with A B show "\<not> isLowSurrogate u" by blast
  qed
  show "reconstruct_original (computeWordDiff dmp a b) = a"
    using expandDiffs_sides(1) [OF low, of ?rm] A
    by (simp add: computeWordDiff_alt mergeParts_sides spell tokenize_concat)
  show "reconstruct_proposed (computeWordDiff dmp a b) = b"
    using expandDiffs_sides(2) [OF low, of ?rm] B
    by (simp add: computeWordDiff_alt mergeParts_sides spell tokenize_concat)
qed

lemma fold_mergeStep_same:
  assumes "\<forall>p\<in>set items. type_d p = op"
  shows "fold mergeStep items [\<lparr>type_d = op, text_d = t\<rparr>]
         = [\<lparr>type_d = op, text_d = t @ concat (map text_d items)\<rparr>]"
  using assms by (induction items arbitrary: t) (simp_all add: mergeStep_def)

lemma mergeParts_same:
  assumes "\<forall>p\<in>set items. type_d p = op"
  shows "mergeParts items = [] \<or> (\<exists>t. mergeParts items = [\<lparr>type_d = op, text_d = t\<rparr>])"
proof (cases items)
  case Nil
  then show ?thesis by (simp add: mergeParts_def)
next
  case (Cons p ps)
  with assms have p: "p = \<lparr>type_d = op, text_d = text_d p\<rparr>" and ps: "\<forall>p\<in>set ps. type_d p = op"
    by simp_all
  have "mergeParts items = fold mergeStep ps [p]"
    by (simp add: mergeParts_def Cons mergeStep_def)
  also have "\<dots> = fold mergeStep ps [\<lparr>type_d = op, text_d = text_d p\<rparr>]" using p by simp
  finally show ?thesis using fold_mergeStep_same [OF ps] by simp
qed

lemma expandChunk_types:
  assumes "p \<in> set (expandChunk rm (op, cs))"
  shows "type_d p = op" and "cs \<noteq> []"
proof -
  from assms show "type_d p = op"
    by (auto simp add: expandChunk_def split: option.splits)
  from assms show "cs \<noteq> []" by (auto simp add: expandChunk_def)
qed

lemma expandDiffs_types:
  assumes "p \<in> set (expandDiffs rm D)"
  obtains cs where "(type_d p, cs) \<in> set D" and "cs \<noteq> []"
proof -
  from assms obtain c where c: "c \<in> set D" "p \<in> set (expandChunk rm c)"
    by (auto simp add: expandDiffs_def)
  obtain op cs where "c = (op, cs)" by (cases c)
  with c expandChunk_types [of p rm op cs] that show ?thesis by auto
qed

lemma word_diff_text_nonempty:
  assumes "p \<in> set (computeWordDiff dmp a b)"
  shows "text_d p \<noteq> []"
proof -
  have "[] \<notin> set (tokenize a) \<union> set (tokenize b)" using tokenize_nonempty by blast
  moreover from computeWordDiff_made_of [of dmp a b] assms
  have "made_of (set (tokenize a) \<union> set (tokenize b)) p" by blast
  ultimately show ?thesis by (rule made_of_nonempty)
qed

lemma no_text_no_chunk:
  assumes "chunks_proposed D = []" and "(op, cs) \<in> set D" and "cs \<noteq> []"
  shows "op = DIFF_DELETE"
  using assms by (induction D) (auto simp add: chunks_proposed_def split: if_splits)

lemma no_text_no_chunk':
  assumes "chunks_original D = []" and "(op, cs) \<in> set D" and "cs \<noteq> []"
  shows "op = DIFF_INSERT"
  using assms by (induction D) (auto simp add: chunks_original_def split: if_splits)

text \<open>
  Below the limit, equal inputs give one equal part and an empty input gives one delete part
  or one insert part, with the whole text.
\<close>

lemma identity_below_limit:
  assumes "valid_diff dmp" and "token_count a a \<le> 56064"
  shows "computeWordDiff dmp a a = (if a = [] then [] else [\<lparr>type_d = DIFF_EQUAL, text_d = a\<rparr>])"
proof -
  let ?ca = "concat (map (code_of a a) (tokenize a))"
  let ?items = "expandDiffs (buildReverseMap (wordMap_of a a)) (dmp ?ca ?ca)"
  have types: "\<forall>p\<in>set ?items. type_d p = DIFF_EQUAL"
  proof
    fix p assume "p \<in> set ?items"
    then obtain cs where "(type_d p, cs) \<in> set (dmp ?ca ?ca)" by (rule expandDiffs_types)
    moreover from assms(1) have "list_all (\<lambda>c. fst c = DIFF_EQUAL) (dmp ?ca ?ca)"
      by (simp add: valid_diff_def)
    ultimately show "type_d p = DIFF_EQUAL" by (auto simp add: list_all_iff)
  qed
  have alt: "computeWordDiff dmp a a = mergeParts ?items" by (simp add: computeWordDiff_alt)
  from mergeParts_same [OF types] consider (none) "computeWordDiff dmp a a = []"
    | (one) t where "computeWordDiff dmp a a = [\<lparr>type_d = DIFF_EQUAL, text_d = t\<rparr>]"
    unfolding alt by blast
  then show ?thesis
  proof cases
    case none
    with reconstruction_below_limit(1) [OF assms] show ?thesis
      by (simp add: reconstruct_original_def)
  next
    case one
    with reconstruction_below_limit(1) [OF assms] have "t = a"
      by (simp add: reconstruct_original_def)
    moreover from one word_diff_text_nonempty [of "\<lparr>type_d = DIFF_EQUAL, text_d = t\<rparr>" dmp a a]
    have "t \<noteq> []" by simp
    ultimately show ?thesis using one by simp
  qed
qed

lemma empty_proposed_below_limit:
  assumes "valid_diff dmp" and "token_count b [] \<le> 56064" and "b \<noteq> []"
  shows "computeWordDiff dmp b [] = [\<lparr>type_d = DIFF_DELETE, text_d = b\<rparr>]"
proof -
  let ?cb = "concat (map (code_of b []) (tokenize b))"
  let ?D = "dmp ?cb (concat (map (code_of b []) (tokenize [])))"
  let ?items = "expandDiffs (buildReverseMap (wordMap_of b [])) ?D"
  from assms(1) have none: "chunks_proposed ?D = []" by (simp add: valid_diff_def)
  have types: "\<forall>p\<in>set ?items. type_d p = DIFF_DELETE"
  proof
    fix p assume "p \<in> set ?items"
    then obtain cs where "(type_d p, cs) \<in> set ?D" "cs \<noteq> []" by (rule expandDiffs_types)
    with none show "type_d p = DIFF_DELETE" by (rule no_text_no_chunk)
  qed
  have alt: "computeWordDiff dmp b [] = mergeParts ?items" by (simp add: computeWordDiff_alt)
  from mergeParts_same [OF types] consider (none) "computeWordDiff dmp b [] = []"
    | (one) t where "computeWordDiff dmp b [] = [\<lparr>type_d = DIFF_DELETE, text_d = t\<rparr>]"
    unfolding alt by blast
  then show ?thesis
  proof cases
    case none
    with reconstruction_below_limit(1) [OF assms(1,2)] assms(3) show ?thesis
      by (simp add: reconstruct_original_def)
  next
    case one
    with reconstruction_below_limit(1) [OF assms(1,2)] show ?thesis
      by (simp add: reconstruct_original_def)
  qed
qed

lemma empty_original_below_limit:
  assumes "valid_diff dmp" and "token_count [] b \<le> 56064" and "b \<noteq> []"
  shows "computeWordDiff dmp [] b = [\<lparr>type_d = DIFF_INSERT, text_d = b\<rparr>]"
proof -
  let ?cb = "concat (map (code_of [] b) (tokenize b))"
  let ?D = "dmp (concat (map (code_of [] b) (tokenize []))) ?cb"
  let ?items = "expandDiffs (buildReverseMap (wordMap_of [] b)) ?D"
  from assms(1) have none: "chunks_original ?D = []" by (simp add: valid_diff_def)
  have types: "\<forall>p\<in>set ?items. type_d p = DIFF_INSERT"
  proof
    fix p assume "p \<in> set ?items"
    then obtain cs where "(type_d p, cs) \<in> set ?D" "cs \<noteq> []" by (rule expandDiffs_types)
    with none show "type_d p = DIFF_INSERT" by (rule no_text_no_chunk')
  qed
  have alt: "computeWordDiff dmp [] b = mergeParts ?items" by (simp add: computeWordDiff_alt)
  from mergeParts_same [OF types] consider (none) "computeWordDiff dmp [] b = []"
    | (one) t where "computeWordDiff dmp [] b = [\<lparr>type_d = DIFF_INSERT, text_d = t\<rparr>]"
    unfolding alt by blast
  then show ?thesis
  proof cases
    case none
    with reconstruction_below_limit(2) [OF assms(1,2)] assms(3) show ?thesis
      by (simp add: reconstruct_proposed_def)
  next
    case one
    with reconstruction_below_limit(2) [OF assms(1,2)] show ?thesis
      by (simp add: reconstruct_proposed_def)
  qed
qed

lemma valid_diff_coarse_diff: "valid_diff coarse_diff"
  by (simp add: valid_diff_def coarse_diff_def chunks_original_def chunks_proposed_def)

text \<open>
  The stand-in diff engine of the examples keeps the contract, and the two texts of the
  example above are far below the limit.
\<close>

lemma reconstruction_example:
  "reconstruct_original (computeWordDiff coarse_diff (js ''hello world'') (js ''hello  there''))
     = js ''hello world''
   \<and> reconstruct_proposed (computeWordDiff coarse_diff (js ''hello world'') (js ''hello  there''))
     = js ''hello  there''"
proof -
  have "token_count (js ''hello world'') (js ''hello  there'') \<le> 56064"
    by (simp add: token_count_def js_def same_class_def isSpace_def card_insert_if)
  from reconstruction_below_limit [OF valid_diff_coarse_diff this] show ?thesis by simp
qed

end
